theory Spec2Isabelle
  imports Complex_Main "HOL-Library.Word" "HOL-Library.Signed_Division" "HOL-Library.Log_Nat"
begin

section \<open>Discovery state machine (AMazeManager game state)\<close>

text \<open>
  The enum \<open>EMazePathTarget\<close> of MazeTypes.h. Its third value is called \<open>None\<close> in the
  source; it is \<open>NoTarget\<close> here because \<open>None\<close> is the constructor of \<open>option\<close>.
\<close>

datatype EMazePathTarget = Exit | Key | NoTarget

text \<open>The struct \<open>FMazeGameState\<close> of MazeTypes.h, field by field.\<close>

record FMazeGameState =
  bExitDiscovered :: bool
  bHasKey :: bool
  CurrentTarget :: EMazePathTarget
  bPathVisible :: bool
  bHollowMaskUnlocked :: bool
  bHollowMaskPermanentlyLocked :: bool

text \<open>The member initialisers of \<open>FMazeGameState\<close>: every flag false, target Exit.\<close>

definition InitialGameState :: FMazeGameState where
  "InitialGameState =
     \<lparr> bExitDiscovered = False, bHasKey = False, CurrentTarget = Exit,
       bPathVisible = False, bHollowMaskUnlocked = False,
       bHollowMaskPermanentlyLocked = False \<rparr>"

text \<open>
  The multicast delegates the manager broadcasts on. A transition returns the new state
  together with the broadcasts it made, in the order the source makes them.
\<close>

datatype Notification =
    OnExitDiscovered
  | OnKeyCollected
  | OnHollowMaskUnlocked
  | OnTargetChanged EMazePathTarget

definition IsHollowMaskAvailable :: "FMazeGameState \<Rightarrow> bool" where
  "IsHollowMaskAvailable s \<longleftrightarrow> bHollowMaskUnlocked s \<and> \<not> bHollowMaskPermanentlyLocked s"

definition CanExitMaze :: "FMazeGameState \<Rightarrow> bool" where
  "CanExitMaze s \<longleftrightarrow> bExitDiscovered s \<and> bHasKey s"

definition UpdatePathfindingTarget :: "FMazeGameState \<Rightarrow> FMazeGameState \<times> Notification list" where
  "UpdatePathfindingTarget s =
     (let OldTarget = CurrentTarget s;
          s' = (if bHasKey s then s\<lparr>CurrentTarget := Exit\<rparr>
                else if bExitDiscovered s then s\<lparr>CurrentTarget := Key\<rparr>
                else s\<lparr>CurrentTarget := Exit\<rparr>)
      in if CurrentTarget s' \<noteq> OldTarget
         then (s', [OnTargetChanged (CurrentTarget s')])
         else (s', []))"

definition UpdateHollowMaskState :: "FMazeGameState \<Rightarrow> FMazeGameState \<times> Notification list" where
  "UpdateHollowMaskState s =
     (if bHollowMaskPermanentlyLocked s then (s, [])
      else if bHasKey s \<and> \<not> bExitDiscovered s
        then (s\<lparr>bHollowMaskPermanentlyLocked := True\<rparr>, [])
      else if bExitDiscovered s \<and> \<not> bHasKey s \<and> \<not> bHollowMaskUnlocked s
        then (s\<lparr>bHollowMaskUnlocked := True\<rparr>, [OnHollowMaskUnlocked])
      else (s, []))"

definition NotifyExitDiscovered :: "FMazeGameState \<Rightarrow> FMazeGameState \<times> Notification list" where
  "NotifyExitDiscovered s =
     (if bExitDiscovered s then (s, [])
      else
        let s1 = s\<lparr>bExitDiscovered := True\<rparr>;
            (s2, n2) = UpdateHollowMaskState s1;
            (s3, n3) = UpdatePathfindingTarget s2
        in (s3, OnExitDiscovered # n2 @ n3))"

definition NotifyKeyCollected :: "FMazeGameState \<Rightarrow> FMazeGameState \<times> Notification list" where
  "NotifyKeyCollected s =
     (if bHasKey s then (s, [])
      else
        let s1 = s\<lparr>bHasKey := True\<rparr>;
            (s2, n2) = UpdateHollowMaskState s1;
            (s3, n3) = UpdatePathfindingTarget s2
        in (s3, OnKeyCollected # n2 @ n3))"

text \<open>A sequence of calls of the two notify functions, applied left to right.\<close>

datatype DiscoveryEvent = ExitDiscoveredEvent | KeyCollectedEvent

fun notify :: "FMazeGameState \<Rightarrow> DiscoveryEvent \<Rightarrow> FMazeGameState" where
  "notify s ExitDiscoveredEvent = fst (NotifyExitDiscovered s)"
| "notify s KeyCollectedEvent = fst (NotifyKeyCollected s)"

definition run_events :: "FMazeGameState \<Rightarrow> DiscoveryEvent list \<Rightarrow> FMazeGameState" where
  "run_events s evs = foldl notify s evs"

subsection \<open>Properties of the state machine\<close>

lemma UpdatePathfindingTarget_flags:
  "bHollowMaskPermanentlyLocked (fst (UpdatePathfindingTarget s)) = bHollowMaskPermanentlyLocked s"
  "bHollowMaskUnlocked (fst (UpdatePathfindingTarget s)) = bHollowMaskUnlocked s"
  "bExitDiscovered (fst (UpdatePathfindingTarget s)) = bExitDiscovered s"
  "bHasKey (fst (UpdatePathfindingTarget s)) = bHasKey s"
  by (simp_all add: UpdatePathfindingTarget_def Let_def)

lemma notify_keeps_lock:
  "bHollowMaskPermanentlyLocked s \<Longrightarrow> bHollowMaskPermanentlyLocked (notify s e)"
  by (cases e)
     (simp_all add: NotifyExitDiscovered_def NotifyKeyCollected_def UpdateHollowMaskState_def
        Let_def split_beta UpdatePathfindingTarget_flags)

lemma run_events_keeps_lock:
  "bHollowMaskPermanentlyLocked s \<Longrightarrow> bHollowMaskPermanentlyLocked (run_events s evs)"
  unfolding run_events_def
  by (induction evs arbitrary: s) (simp_all add: notify_keeps_lock)

text \<open>
  Claim C3 (one-way latch). From any state in which \<open>bHollowMaskPermanentlyLocked\<close> is
  true, after any sequence of \<open>NotifyExitDiscovered\<close> / \<open>NotifyKeyCollected\<close> calls the
  flag is still true and \<open>IsHollowMaskAvailable\<close> is false.
\<close>

theorem permanent_lock_is_latch:
  assumes "bHollowMaskPermanentlyLocked s"
  shows "bHollowMaskPermanentlyLocked (run_events s evs) \<and>
         \<not> IsHollowMaskAvailable (run_events s evs)"
  using run_events_keeps_lock [OF assms] by (simp add: IsHollowMaskAvailable_def)

theorem permanent_lock_is_latch_witness:
  "bHollowMaskPermanentlyLocked
     (run_events (InitialGameState\<lparr>bHollowMaskUnlocked := True, bHollowMaskPermanentlyLocked := True\<rparr>)
        [ExitDiscoveredEvent, KeyCollectedEvent, ExitDiscoveredEvent]) \<and>
   \<not> IsHollowMaskAvailable
     (run_events (InitialGameState\<lparr>bHollowMaskUnlocked := True, bHollowMaskPermanentlyLocked := True\<rparr>)
        [ExitDiscoveredEvent, KeyCollectedEvent, ExitDiscoveredEvent])"
  using permanent_lock_is_latch
    [of "InitialGameState\<lparr>bHollowMaskUnlocked := True, bHollowMaskPermanentlyLocked := True\<rparr>"
        "[ExitDiscoveredEvent, KeyCollectedEvent, ExitDiscoveredEvent]"]
  by (simp add: InitialGameState_def)

text \<open>
  Claim C9 (idempotent events). When the flag of an event is already set, the call
  returns the state unchanged and broadcasts nothing; so a second call in a row changes
  nothing and broadcasts nothing, whatever the state before the first call was.
\<close>

theorem notify_idempotent:
  "(bExitDiscovered s \<longrightarrow> NotifyExitDiscovered s = (s, [])) \<and>
   (bHasKey s \<longrightarrow> NotifyKeyCollected s = (s, [])) \<and>
   NotifyExitDiscovered (fst (NotifyExitDiscovered s)) = (fst (NotifyExitDiscovered s), []) \<and>
   NotifyKeyCollected (fst (NotifyKeyCollected s)) = (fst (NotifyKeyCollected s), [])"
proof -
  have e: "bExitDiscovered (fst (NotifyExitDiscovered s))"
    by (simp add: NotifyExitDiscovered_def Let_def split_beta UpdatePathfindingTarget_flags
          UpdateHollowMaskState_def)
  have k: "bHasKey (fst (NotifyKeyCollected s))"
    by (simp add: NotifyKeyCollected_def Let_def split_beta UpdatePathfindingTarget_flags
          UpdateHollowMaskState_def)
  show ?thesis
    using e k by (simp add: NotifyExitDiscovered_def NotifyKeyCollected_def)
qed

theorem notify_idempotent_witness:
  "bExitDiscovered (fst (NotifyExitDiscovered InitialGameState)) \<and>
   NotifyExitDiscovered InitialGameState \<noteq> (InitialGameState, []) \<and>
   NotifyExitDiscovered (fst (NotifyExitDiscovered InitialGameState))
     = (fst (NotifyExitDiscovered InitialGameState), []) \<and>
   bHasKey (fst (NotifyKeyCollected InitialGameState)) \<and>
   NotifyKeyCollected (fst (NotifyKeyCollected InitialGameState))
     = (fst (NotifyKeyCollected InitialGameState), [])"
proof -
  have e: "bExitDiscovered (fst (NotifyExitDiscovered InitialGameState))"
    by (simp add: NotifyExitDiscovered_def InitialGameState_def UpdateHollowMaskState_def
          UpdatePathfindingTarget_def Let_def)
  have k: "bHasKey (fst (NotifyKeyCollected InitialGameState))"
    by (simp add: NotifyKeyCollected_def InitialGameState_def UpdateHollowMaskState_def
          UpdatePathfindingTarget_def Let_def)
  have n: "NotifyExitDiscovered InitialGameState \<noteq> (InitialGameState, [])"
    by (simp add: NotifyExitDiscovered_def InitialGameState_def UpdateHollowMaskState_def
          UpdatePathfindingTarget_def Let_def)
  from notify_idempotent [of "fst (NotifyExitDiscovered InitialGameState)"] e
  have 1: "NotifyExitDiscovered (fst (NotifyExitDiscovered InitialGameState))
     = (fst (NotifyExitDiscovered InitialGameState), [])" by blast
  from notify_idempotent [of "fst (NotifyKeyCollected InitialGameState)"] k
  have 2: "NotifyKeyCollected (fst (NotifyKeyCollected InitialGameState))
     = (fst (NotifyKeyCollected InitialGameState), [])" by blast
  show ?thesis using e k n 1 2 by blast
qed

text \<open>
  The invariant behind claim C10: the mask is only ever unlocked after the exit was
  discovered and while the permanent lock is off, and the lock is only set while the
  exit is undiscovered.
\<close>

definition mask_inv :: "FMazeGameState \<Rightarrow> bool" where
  "mask_inv s \<longleftrightarrow>
     (if bHollowMaskUnlocked s then bExitDiscovered s \<and> \<not> bHollowMaskPermanentlyLocked s
      else True)"

lemma mask_inv_notify: "mask_inv s \<Longrightarrow> mask_inv (notify s e)"
  by (cases e)
     (auto simp add: mask_inv_def NotifyExitDiscovered_def NotifyKeyCollected_def
        UpdateHollowMaskState_def Let_def split_beta UpdatePathfindingTarget_flags
        split: if_splits)

lemma mask_inv_run: "mask_inv s \<Longrightarrow> mask_inv (run_events s evs)"
  unfolding run_events_def
  by (induction evs arbitrary: s) (simp_all add: mask_inv_notify)

text \<open>
  Claim C10. In every state reached from the initial state by calls of the two notify
  functions, \<open>bHollowMaskUnlocked\<close> and \<open>bHollowMaskPermanentlyLocked\<close> are not both
  true, and \<open>IsHollowMaskAvailable\<close> equals \<open>bHollowMaskUnlocked\<close>.
\<close>

theorem unlocked_and_locked_exclusive:
  "\<not> (bHollowMaskUnlocked (run_events InitialGameState evs) \<and>
       bHollowMaskPermanentlyLocked (run_events InitialGameState evs)) \<and>
   IsHollowMaskAvailable (run_events InitialGameState evs)
     = bHollowMaskUnlocked (run_events InitialGameState evs)"
proof -
  have "mask_inv InitialGameState"
    by (simp add: mask_inv_def InitialGameState_def)
  then have "mask_inv (run_events InitialGameState evs)"
    by (rule mask_inv_run)
  then show ?thesis
    by (auto simp add: mask_inv_def IsHollowMaskAvailable_def split: if_splits)
qed

theorem unlocked_and_locked_exclusive_witness:
  "bHollowMaskUnlocked (run_events InitialGameState [ExitDiscoveredEvent, KeyCollectedEvent]) \<and>
   IsHollowMaskAvailable (run_events InitialGameState [ExitDiscoveredEvent, KeyCollectedEvent])"
proof -
  have u: "bHollowMaskUnlocked (run_events InitialGameState [ExitDiscoveredEvent, KeyCollectedEvent])"
    by (simp add: run_events_def NotifyExitDiscovered_def NotifyKeyCollected_def
          InitialGameState_def UpdateHollowMaskState_def UpdatePathfindingTarget_def Let_def)
  with unlocked_and_locked_exclusive [of "[ExitDiscoveredEvent, KeyCollectedEvent]"]
  show ?thesis by blast
qed


section \<open>Pathfinder (UMazePathfinder)\<close>

text \<open>
  \<open>FIntPoint\<close> is a pair of \<open>int32\<close> coordinates. They are modelled as mathematical
  integers: every coordinate the pathfinder computes from an in-bounds cell stays within
  one step of the grid, and signed overflow is undefined in C++.

  \<open>FVector\<close> and \<open>float\<close> are not interpreted. World positions are values of a type
  parameter \<open>'v\<close>, the cell size a value of a type parameter \<open>'f\<close>, and
  \<open>GridToWorld\<close> is passed to \<open>FindPath\<close> as a function from grid positions to \<open>'v\<close>;
  \<open>FindPath\<close> only maps the cells of the path through it.
\<close>

type_synonym FIntPoint = "int \<times> int"

record 'v FMazeCell =
  GridPosition :: FIntPoint
  WorldPosition :: 'v
  bIsFloor :: bool
  bIsOnPath :: bool
  InstanceIndex :: int

record 'v FMazePathResult =
  bSuccess :: bool
  PathGridCoordinates :: "FIntPoint list"
  PathWorldPositions :: "'v list"
  PathLength :: int

record ('v, 'f) UMazePathfinder =
  CachedCells :: "'v FMazeCell list"
  MazeSize :: FIntPoint
  CellSize :: 'f
  bIsInitialized :: bool

text \<open>
  The value of an integer as an \<open>int32\<close>: 32-bit two's complement, so that arithmetic that
  leaves the range wraps around.
\<close>

definition int32 :: "int \<Rightarrow> int" where
  "int32 k = (k + 2147483648) mod 4294967296 - 2147483648"

text \<open>
  \<open>Initialize\<close> overwrites every member, so the model builds the object. The comparison
  \<open>CachedCells.Num() == MazeSize.X * MazeSize.Y\<close> is a comparison of two \<open>int32\<close> values:
  the product is taken in \<open>int32\<close>, and \<open>Num()\<close> is an \<open>int32\<close> (an array holds fewer than
  \<open>2^31\<close> elements, and for those the \<open>int32\<close> is the length itself).
\<close>

definition Initialize ::
  "'v FMazeCell list \<Rightarrow> FIntPoint \<Rightarrow> 'f \<Rightarrow> ('v, 'f) UMazePathfinder" where
  "Initialize InCells InMazeSize InCellSize =
     \<lparr> CachedCells = InCells, MazeSize = InMazeSize, CellSize = InCellSize,
       bIsInitialized =
         (int32 (int (length InCells)) = int32 (fst InMazeSize * snd InMazeSize)) \<rparr>"

definition GridToIndex :: "('v, 'f) UMazePathfinder \<Rightarrow> FIntPoint \<Rightarrow> int" where
  "GridToIndex pf GridPos = snd GridPos * fst (MazeSize pf) + fst GridPos"

definition IsValidCell :: "('v, 'f) UMazePathfinder \<Rightarrow> FIntPoint \<Rightarrow> bool" where
  "IsValidCell pf GridPos =
     (if fst GridPos < 0 \<or> fst GridPos \<ge> fst (MazeSize pf) \<or>
         snd GridPos < 0 \<or> snd GridPos \<ge> snd (MazeSize pf)
      then False
      else
        let Index = GridToIndex pf GridPos
        in if Index \<ge> 0 \<and> Index < int (length (CachedCells pf))
           then bIsFloor (CachedCells pf ! nat Index)
           else False)"

text \<open>The four cardinal offsets, in the order of the source: East, West, South, North.\<close>

definition Offsets :: "FIntPoint list" where
  "Offsets = [(1, 0), (-1, 0), (0, 1), (0, -1)]"

definition GetWalkableNeighbors :: "('v, 'f) UMazePathfinder \<Rightarrow> FIntPoint \<Rightarrow> FIntPoint list" where
  "GetWalkableNeighbors pf GridPos =
     filter (IsValidCell pf)
       (map (\<lambda>Offset. (fst GridPos + fst Offset, snd GridPos + snd Offset)) Offsets)"

text \<open>
  The state of the breadth-first search: the \<open>Visited\<close> set, the \<open>Parents\<close> map and the
  queue (front of the queue first). \<open>visit_neighbors\<close> is the \<open>for\<close> loop over the
  neighbours of the dequeued cell.
\<close>

type_synonym bfs_state = "FIntPoint set \<times> (FIntPoint \<rightharpoonup> FIntPoint) \<times> FIntPoint list"

fun visit_neighbors :: "FIntPoint \<Rightarrow> FIntPoint list \<Rightarrow> bfs_state \<Rightarrow> bfs_state" where
  "visit_neighbors Current [] st = st"
| "visit_neighbors Current (Neighbor # rest) (Visited, Parents, Queue) =
     (if Neighbor \<notin> Visited
      then visit_neighbors Current rest
             (insert Neighbor Visited, Parents(Neighbor \<mapsto> Current), Queue @ [Neighbor])
      else visit_neighbors Current rest (Visited, Parents, Queue))"

lemma visit_neighbors_Visited:
  "visit_neighbors c ns (V, P, Q) = (V', P', Q') \<Longrightarrow> V' = V \<union> set ns"
  by (induction ns arbitrary: V P Q) (auto split: if_splits)

lemma visit_neighbors_nothing_new:
  "visit_neighbors c ns (V, P, Q) = (V', P', Q') \<Longrightarrow> set ns \<subseteq> V \<Longrightarrow> Q' = Q"
  by (induction ns arbitrary: V P Q) (auto split: if_splits)

lemma IsValidCell_in_box:
  "IsValidCell pf p \<Longrightarrow> p \<in> {0..<fst (MazeSize pf)} \<times> {0..<snd (MazeSize pf)}"
  by (cases p) (auto simp add: IsValidCell_def split: if_splits)

lemma finite_valid_cells: "finite {p. IsValidCell pf p}"
proof (rule finite_subset)
  show "{p. IsValidCell pf p} \<subseteq> {0..<fst (MazeSize pf)} \<times> {0..<snd (MazeSize pf)}"
    using IsValidCell_in_box by blast
  show "finite ({0..<fst (MazeSize pf)} \<times> {0..<snd (MazeSize pf)})"
    by simp
qed

lemma GetWalkableNeighbors_valid:
  "n \<in> set (GetWalkableNeighbors pf c) \<Longrightarrow> IsValidCell pf n"
  by (simp add: GetWalkableNeighbors_def)

text \<open>
  The \<open>while (!Queue.IsEmpty())\<close> loop. It returns \<open>bFoundPath\<close> and the parents map.
  It terminates because every round either marks a new walkable cell as visited or
  shortens the queue.
\<close>

function bfs_loop ::
  "('v, 'f) UMazePathfinder \<Rightarrow> FIntPoint \<Rightarrow> bfs_state \<Rightarrow> bool \<times> (FIntPoint \<rightharpoonup> FIntPoint)" where
  "bfs_loop pf End (Visited, Parents, []) = (False, Parents)"
| "bfs_loop pf End (Visited, Parents, Current # Queue) =
     (if Current = End then (True, Parents)
      else bfs_loop pf End
             (visit_neighbors Current (GetWalkableNeighbors pf Current) (Visited, Parents, Queue)))"
  by pat_completeness auto
termination
proof (relation "inv_image (less_than <*lex*> less_than)
         (\<lambda>(pf, End, (V, P, Q)). (card ({p. IsValidCell pf p} - V), length Q))", goal_cases)
  case 1
  show ?case by (intro wf_inv_image wf_lex_prod wf_less_than)
next
  case (2 pf End Visited Parents Current Queue)
  obtain V' P' Q' where
    r: "visit_neighbors Current (GetWalkableNeighbors pf Current) (Visited, Parents, Queue)
          = (V', P', Q')"
    by (cases "visit_neighbors Current (GetWalkableNeighbors pf Current) (Visited, Parents, Queue)")
  have V': "V' = Visited \<union> set (GetWalkableNeighbors pf Current)"
    using r by (rule visit_neighbors_Visited)
  show ?case
  proof (cases "set (GetWalkableNeighbors pf Current) \<subseteq> Visited")
    case True
    then have "V' = Visited" using V' by blast
    moreover have "Q' = Queue" using r True by (rule visit_neighbors_nothing_new)
    ultimately show ?thesis using r by simp
  next
    case False
    then obtain n where n: "n \<in> set (GetWalkableNeighbors pf Current)" "n \<notin> Visited"
      by blast
    then have "IsValidCell pf n" by (simp add: GetWalkableNeighbors_valid)
    then have "{p. IsValidCell pf p} - V' \<subset> {p. IsValidCell pf p} - Visited"
      using n V' by blast
    then have "card ({p. IsValidCell pf p} - V') < card ({p. IsValidCell pf p} - Visited)"
      by (intro psubset_card_mono) (simp_all add: finite_valid_cells)
    then show ?thesis using r by simp
  qed
qed

text \<open>
  Path reconstruction: the loop \<open>while (Current != FIntPoint(-1, -1))\<close> that follows the
  parents map from \<open>End\<close>. On a cyclic map the loop of the source does not end; the model
  is then \<open>None\<close>.
\<close>

partial_function (option) reconstruct ::
  "(FIntPoint \<rightharpoonup> FIntPoint) \<Rightarrow> FIntPoint \<Rightarrow> FIntPoint list \<Rightarrow> FIntPoint list option" where
  "reconstruct Parents Current ReversedPath =
     (if Current \<noteq> (-1, -1)
      then (case Parents Current of
              Some Parent \<Rightarrow> reconstruct Parents Parent (ReversedPath @ [Current])
            | None \<Rightarrow> Some (ReversedPath @ [Current]))
      else Some ReversedPath)"

definition FailedResult :: "'v FMazePathResult" where
  "FailedResult =
     \<lparr> bSuccess = False, PathGridCoordinates = [], PathWorldPositions = [], PathLength = 0 \<rparr>"

text \<open>
  \<open>FindPath\<close>. \<open>Result\<close> starts as \<open>FailedResult\<close> (the default-constructed struct with
  \<open>bSuccess\<close> and \<open>PathLength\<close> reset) and is returned as it is on every failure. The
  value \<open>None\<close> stands for a call that does not return.
\<close>

definition FindPath ::
  "(FIntPoint \<Rightarrow> 'v) \<Rightarrow> ('v, 'f) UMazePathfinder \<Rightarrow> FIntPoint \<Rightarrow> FIntPoint
     \<Rightarrow> 'v FMazePathResult option" where
  "FindPath GridToWorld pf Start End =
     (if \<not> bIsInitialized pf then Some FailedResult
      else if \<not> IsValidCell pf Start then Some FailedResult
      else if \<not> IsValidCell pf End then Some FailedResult
      else if Start = End
        then Some \<lparr> bSuccess = True, PathGridCoordinates = [Start],
                    PathWorldPositions = [GridToWorld Start], PathLength = 1 \<rparr>
      else
        let (bFoundPath, Parents) =
              bfs_loop pf End ({Start}, [Start \<mapsto> (-1, -1)], [Start])
        in if \<not> bFoundPath then Some FailedResult
           else (case reconstruct Parents End [] of
                   None \<Rightarrow> None
                 | Some ReversedPath \<Rightarrow>
                     Some \<lparr> bSuccess = True,
                            PathGridCoordinates = rev ReversedPath,
                            PathWorldPositions = map GridToWorld (rev ReversedPath),
                            PathLength = int (length (rev ReversedPath)) \<rparr>))"

subsection \<open>Failure results\<close>

text \<open>A one-row grid of two cells, a floor and a wall, used for concrete runs.\<close>

definition two_cells :: "unit FMazeCell list" where
  "two_cells =
     [\<lparr> GridPosition = (0, 0), WorldPosition = (), bIsFloor = True, bIsOnPath = False,
        InstanceIndex = -1 \<rparr>,
      \<lparr> GridPosition = (1, 0), WorldPosition = (), bIsFloor = False, bIsOnPath = False,
        InstanceIndex = -1 \<rparr>]"

text \<open>A grid of a single floor cell.\<close>

definition one_floor :: "unit FMazeCell list" where
  "one_floor =
     [\<lparr> GridPosition = (0, 0), WorldPosition = (), bIsFloor = True, bIsOnPath = False,
        InstanceIndex = -1 \<rparr>]"





subsection \<open>Nearest walkable cell\<close>

text \<open>
  \<open>FindNearestWalkableCell\<close>: three nested \<open>for\<close> loops, each a recursive function on its
  loop variable; \<open>return TestPos\<close> inside the loops is the value \<open>Some TestPos\<close>, which
  every enclosing loop passes on. The \<open>continue\<close> skips a cell that is not on the
  perimeter of the square of the current radius.
\<close>

function scan_DY ::
  "('v, 'f) UMazePathfinder \<Rightarrow> FIntPoint \<Rightarrow> int \<Rightarrow> int \<Rightarrow> int \<Rightarrow> FIntPoint option" where
  "scan_DY pf GridPos Radius DX DY =
     (if DY \<le> Radius
      then if \<bar>DX\<bar> \<noteq> Radius \<and> \<bar>DY\<bar> \<noteq> Radius
           then scan_DY pf GridPos Radius DX (DY + 1)
           else let TestPos = (fst GridPos + DX, snd GridPos + DY)
                in if IsValidCell pf TestPos then Some TestPos
                   else scan_DY pf GridPos Radius DX (DY + 1)
      else None)"
  by pat_completeness auto
termination
  by (relation "measure (\<lambda>(pf, G, R, DX, DY). nat (R + 1 - DY))") auto

function scan_DX ::
  "('v, 'f) UMazePathfinder \<Rightarrow> FIntPoint \<Rightarrow> int \<Rightarrow> int \<Rightarrow> FIntPoint option" where
  "scan_DX pf GridPos Radius DX =
     (if DX \<le> Radius
      then (case scan_DY pf GridPos Radius DX (- Radius) of
              Some TestPos \<Rightarrow> Some TestPos
            | None \<Rightarrow> scan_DX pf GridPos Radius (DX + 1))
      else None)"
  by pat_completeness auto
termination
  by (relation "measure (\<lambda>(pf, G, R, DX). nat (R + 1 - DX))") auto

function scan_Radius ::
  "('v, 'f) UMazePathfinder \<Rightarrow> FIntPoint \<Rightarrow> int \<Rightarrow> int \<Rightarrow> FIntPoint option" where
  "scan_Radius pf GridPos MaxRadius Radius =
     (if Radius \<le> MaxRadius
      then (case scan_DX pf GridPos Radius (- Radius) of
              Some TestPos \<Rightarrow> Some TestPos
            | None \<Rightarrow> scan_Radius pf GridPos MaxRadius (Radius + 1))
      else None)"
  by pat_completeness auto
termination
  by (relation "measure (\<lambda>(pf, G, M, R). nat (M + 1 - R))") auto

declare scan_DY.simps [simp del] scan_DX.simps [simp del] scan_Radius.simps [simp del]

definition FindNearestWalkableCell :: "('v, 'f) UMazePathfinder \<Rightarrow> FIntPoint \<Rightarrow> FIntPoint" where
  "FindNearestWalkableCell pf GridPos =
     (let MaxRadius = max (fst (MazeSize pf)) (snd (MazeSize pf))
      in case scan_Radius pf GridPos MaxRadius 0 of
           Some TestPos \<Rightarrow> TestPos
         | None \<Rightarrow> (-1, -1))"

text \<open>
  The search order in the words of the specification: the Chebyshev distance of two
  cells, the perimeter cells of the ring of radius \<open>R\<close> around a cell column by column,
  and the rings of radius \<open>0, 1, \<dots>, MaxRadius\<close> one after the other.
\<close>

definition chebyshev :: "FIntPoint \<Rightarrow> FIntPoint \<Rightarrow> int" where
  "chebyshev p q = max \<bar>fst p - fst q\<bar> \<bar>snd p - snd q\<bar>"

definition ring_column :: "FIntPoint \<Rightarrow> int \<Rightarrow> int \<Rightarrow> int \<Rightarrow> FIntPoint list" where
  "ring_column c R DX DY0 =
     map (\<lambda>DY. (fst c + DX, snd c + DY)) (filter (\<lambda>DY. \<bar>DX\<bar> = R \<or> \<bar>DY\<bar> = R) [DY0..R])"

definition ring :: "FIntPoint \<Rightarrow> int \<Rightarrow> FIntPoint list" where
  "ring c R = concat (map (\<lambda>DX. ring_column c R DX (- R)) [- R..R])"

definition rings :: "FIntPoint \<Rightarrow> int \<Rightarrow> FIntPoint list" where
  "rings c MaxRadius = concat (map (ring c) [0..MaxRadius])"

lemma find_append_case:
  "find P (xs @ ys) = (case find P xs of Some x \<Rightarrow> Some x | None \<Rightarrow> find P ys)"
  by (induction xs) auto

lemma scan_DY_find:
  "scan_DY pf c R DX DY = find (IsValidCell pf) (ring_column c R DX DY)"
proof (induction pf c R DX DY rule: scan_DY.induct)
  case (1 pf c R DX DY)
  show ?case
  proof (cases "DY \<le> R")
    case True
    then have u: "[DY..R] = DY # [DY + 1..R]" by (simp add: upto_rec1)
    show ?thesis
      using 1 True
      by (subst scan_DY.simps) (auto simp add: ring_column_def u Let_def)
  next
    case False
    then show ?thesis
      by (subst scan_DY.simps) (simp add: ring_column_def)
  qed
qed

lemma scan_DX_find:
  "scan_DX pf c R DX =
     find (IsValidCell pf) (concat (map (\<lambda>DX. ring_column c R DX (- R)) [DX..R]))"
proof (induction pf c R DX rule: scan_DX.induct)
  case (1 pf c R DX)
  show ?case
  proof (cases "DX \<le> R")
    case True
    then have u: "[DX..R] = DX # [DX + 1..R]" by (simp add: upto_rec1)
    have "scan_DX pf c R DX =
            (case scan_DY pf c R DX (- R) of
               Some p \<Rightarrow> Some p
             | None \<Rightarrow> scan_DX pf c R (DX + 1))"
      using True by (subst scan_DX.simps) simp
    also have "\<dots> = find (IsValidCell pf)
                      (concat (map (\<lambda>DX. ring_column c R DX (- R)) [DX..R]))"
      using 1 [OF True] by (simp add: u find_append_case scan_DY_find split: option.splits)
    finally show ?thesis .
  next
    case False
    then show ?thesis
      by (subst scan_DX.simps) simp
  qed
qed

lemma scan_Radius_find:
  "scan_Radius pf c M R = find (IsValidCell pf) (concat (map (ring c) [R..M]))"
proof (induction pf c M R rule: scan_Radius.induct)
  case (1 pf c M R)
  show ?case
  proof (cases "R \<le> M")
    case True
    then have u: "[R..M] = R # [R + 1..M]" by (simp add: upto_rec1)
    have dx: "scan_DX pf c R (- R) = find (IsValidCell pf) (ring c R)"
      by (simp add: scan_DX_find ring_def)
    have "scan_Radius pf c M R =
            (case scan_DX pf c R (- R) of
               Some p \<Rightarrow> Some p
             | None \<Rightarrow> scan_Radius pf c M (R + 1))"
      using True by (subst scan_Radius.simps) simp
    also have "\<dots> = find (IsValidCell pf) (concat (map (ring c) [R..M]))"
      using 1 [OF True] dx
      by (simp add: u find_append_case split: option.splits)
    finally show ?thesis .
  next
    case False
    then show ?thesis
      by (subst scan_Radius.simps) simp
  qed
qed

lemma in_ring_iff:
  "p \<in> set (ring c R) \<longleftrightarrow>
     (\<exists>DX DY. - R \<le> DX \<and> DX \<le> R \<and> - R \<le> DY \<and> DY \<le> R \<and> (\<bar>DX\<bar> = R \<or> \<bar>DY\<bar> = R) \<and>
        p = (fst c + DX, snd c + DY))"
  by (auto simp add: ring_def ring_column_def)

lemma set_ring: "0 \<le> R \<Longrightarrow> set (ring c R) = {p. chebyshev p c = R}"
proof (intro set_eqI iffI)
  fix p assume "0 \<le> R" "p \<in> set (ring c R)"
  then show "p \<in> {p. chebyshev p c = R}"
    by (auto simp add: in_ring_iff chebyshev_def)
next
  fix p assume R: "0 \<le> R" and "p \<in> {p. chebyshev p c = R}"
  then have c: "max \<bar>fst p - fst c\<bar> \<bar>snd p - snd c\<bar> = R"
    by (simp add: chebyshev_def)
  let ?DX = "fst p - fst c" and ?DY = "snd p - snd c"
  have "- R \<le> ?DX \<and> ?DX \<le> R \<and> - R \<le> ?DY \<and> ?DY \<le> R \<and> (\<bar>?DX\<bar> = R \<or> \<bar>?DY\<bar> = R)"
    using c by auto
  moreover have "p = (fst c + ?DX, snd c + ?DY)" by simp
  ultimately show "p \<in> set (ring c R)"
    unfolding in_ring_iff by blast
qed

lemma find_rings_Some:
  "find P (concat (map f [a..b])) = Some x \<Longrightarrow>
     \<exists>k. a \<le> k \<and> k \<le> b \<and> x \<in> set (f k) \<and> P x \<and>
         (\<forall>j y. a \<le> j \<and> j < k \<and> y \<in> set (f j) \<longrightarrow> \<not> P y)"
proof (induction a b rule: upto.induct)
  case (1 a b)
  show ?case
  proof (cases "a \<le> b")
    case True
    then have u: "[a..b] = a # [a + 1..b]" by (simp add: upto_rec1)
    show ?thesis
    proof (cases "find P (f a)")
      case None
      then have "find P (concat (map f [a + 1..b])) = Some x"
        using 1(2) by (simp add: u find_append_case)
      from 1(1) [OF True this] obtain k where
        k: "a + 1 \<le> k" "k \<le> b" "x \<in> set (f k)" "P x"
           "\<forall>j y. a + 1 \<le> j \<and> j < k \<and> y \<in> set (f j) \<longrightarrow> \<not> P y"
        by blast
      have "\<forall>j y. a \<le> j \<and> j < k \<and> y \<in> set (f j) \<longrightarrow> \<not> P y"
      proof (intro allI impI)
        fix j y assume h: "a \<le> j \<and> j < k \<and> y \<in> set (f j)"
        show "\<not> P y"
        proof (cases "j = a")
          case True
          then show ?thesis using None h by (auto simp add: find_None_iff)
        next
          case False
          then have "a + 1 \<le> j" using h by simp
          then show ?thesis using k(5) h by blast
        qed
      qed
      then show ?thesis using k by (intro exI [of _ k]) auto
    next
      case (Some y)
      then have "x = y" using 1(2) by (simp add: u find_append_case)
      then have "x \<in> set (f a)" "P x" using Some by (auto simp add: find_Some_iff)
      then show ?thesis using True by (intro exI [of _ a]) auto
    qed
  next
    case False
    then show ?thesis using 1(2) by simp
  qed
qed


lemma chebyshev_nonneg: "0 \<le> chebyshev p c"
  by (simp add: chebyshev_def)

lemma set_rings: "set (rings c M) = {p. chebyshev p c \<le> M}"
proof (intro set_eqI iffI)
  fix p assume "p \<in> set (rings c M)"
  then obtain R where "0 \<le> R" "R \<le> M" "p \<in> set (ring c R)"
    by (auto simp add: rings_def)
  then show "p \<in> {p. chebyshev p c \<le> M}"
    by (simp add: set_ring)
next
  fix p assume "p \<in> {p. chebyshev p c \<le> M}"
  then have "chebyshev p c \<in> set [0..M]" "p \<in> set (ring c (chebyshev p c))"
    by (simp_all add: chebyshev_nonneg set_ring)
  then show "p \<in> set (rings c M)"
    unfolding rings_def set_concat set_map by blast
qed

lemma IsValidCell_not_sentinel: "IsValidCell pf p \<Longrightarrow> p \<noteq> (-1, -1)"
  by (auto simp add: IsValidCell_def)

lemma FindNearestWalkableCell_find:
  "FindNearestWalkableCell pf c =
     (case find (IsValidCell pf) (rings c (max (fst (MazeSize pf)) (snd (MazeSize pf)))) of
        Some p \<Rightarrow> p
      | None \<Rightarrow> (-1, -1))"
  by (simp add: FindNearestWalkableCell_def scan_Radius_find rings_def)

lemma first_in_rings_sentinel_iff:
  "(case find (IsValidCell pf) (rings c M) of Some p \<Rightarrow> p | None \<Rightarrow> (-1, -1)) = (-1, -1) \<longleftrightarrow>
     (\<forall>p. IsValidCell pf p \<longrightarrow> M < chebyshev p c)"
proof (cases "find (IsValidCell pf) (rings c M)")
  case None
  then have "\<forall>p. chebyshev p c \<le> M \<longrightarrow> \<not> IsValidCell pf p"
    by (simp add: find_None_iff set_rings)
  then have "\<forall>p. IsValidCell pf p \<longrightarrow> M < chebyshev p c"
    by (meson not_le)
  then show ?thesis
    using None by simp
next
  case (Some q)
  then have q: "IsValidCell pf q" "q \<in> set (rings c M)"
    by (auto simp add: find_Some_iff)
  then have "\<not> M < chebyshev q c"
    by (simp add: set_rings)
  then have "\<not> (\<forall>p. IsValidCell pf p \<longrightarrow> M < chebyshev p c)"
    using q(1) by blast
  then show ?thesis
    using Some IsValidCell_not_sentinel [OF q(1)] by simp
qed

lemma FindNearestWalkableCell_sentinel_iff:
  "FindNearestWalkableCell pf c = (-1, -1) \<longleftrightarrow>
     (\<forall>p. IsValidCell pf p \<longrightarrow> max (fst (MazeSize pf)) (snd (MazeSize pf)) < chebyshev p c)"
  unfolding FindNearestWalkableCell_find by (rule first_in_rings_sentinel_iff)

lemma FindNearestWalkableCell_nearest:
  assumes "FindNearestWalkableCell pf c \<noteq> (-1, -1)"
  shows "IsValidCell pf (FindNearestWalkableCell pf c) \<and>
         (\<forall>p. IsValidCell pf p \<longrightarrow>
            chebyshev (FindNearestWalkableCell pf c) c \<le> chebyshev p c)"
proof -
  let ?M = "max (fst (MazeSize pf)) (snd (MazeSize pf))"
  obtain q where f: "find (IsValidCell pf) (concat (map (ring c) [0..?M])) = Some q"
    and q: "FindNearestWalkableCell pf c = q"
    using assms by (auto simp add: FindNearestWalkableCell_find rings_def split: option.splits)
  from find_rings_Some [OF f] obtain k where
    k: "0 \<le> k" "k \<le> ?M" "q \<in> set (ring c k)" "IsValidCell pf q"
       "\<forall>j y. 0 \<le> j \<and> j < k \<and> y \<in> set (ring c j) \<longrightarrow> \<not> IsValidCell pf y"
    by blast
  have qk: "chebyshev q c = k" using k(1,3) by (simp add: set_ring)
  have "chebyshev q c \<le> chebyshev p c" if "IsValidCell pf p" for p
  proof (rule ccontr)
    assume "\<not> chebyshev q c \<le> chebyshev p c"
    then have "0 \<le> chebyshev p c \<and> chebyshev p c < k \<and> p \<in> set (ring c (chebyshev p c))"
      using qk by (simp add: chebyshev_nonneg set_ring)
    then show False using k(5) that by blast
  qed
  then show ?thesis using q k(4) by simp
qed

lemma in_bounds_chebyshev:
  assumes "IsValidCell pf p" "0 \<le> fst c" "fst c < fst (MazeSize pf)"
    "0 \<le> snd c" "snd c < snd (MazeSize pf)"
  shows "chebyshev p c \<le> max (fst (MazeSize pf)) (snd (MazeSize pf))"
  using IsValidCell_in_box [OF assms(1)] assms(2-)
  by (cases p) (auto simp add: chebyshev_def)

text \<open>
  Claim C6, as the code has it. \<open>FindNearestWalkableCell\<close> returns the first walkable cell
  in the sequence of the rings of radius \<open>0\<close> to \<open>max(width, height)\<close> around the origin,
  where the ring of radius \<open>R\<close> holds exactly the cells at Chebyshev distance \<open>R\<close>; a cell
  it returns is walkable and no walkable cell is nearer to the origin. It returns
  \<open>(-1, -1)\<close> exactly when no walkable cell lies within Chebyshev distance
  \<open>max(width, height)\<close> of the origin; for an origin inside the grid that is exactly when
  the grid has no walkable cell.
\<close>

theorem FindNearestWalkableCell_ring_search:
  "FindNearestWalkableCell pf c =
     (case find (IsValidCell pf) (rings c (max (fst (MazeSize pf)) (snd (MazeSize pf)))) of
        Some p \<Rightarrow> p
      | None \<Rightarrow> (-1, -1)) \<and>
   (0 \<le> R \<longrightarrow> set (ring c R) = {p. chebyshev p c = R}) \<and>
   (FindNearestWalkableCell pf c \<noteq> (-1, -1) \<longrightarrow>
      IsValidCell pf (FindNearestWalkableCell pf c) \<and>
      (\<forall>p. IsValidCell pf p \<longrightarrow>
         chebyshev (FindNearestWalkableCell pf c) c \<le> chebyshev p c)) \<and>
   (FindNearestWalkableCell pf c = (-1, -1) \<longleftrightarrow>
      (\<forall>p. IsValidCell pf p \<longrightarrow>
         max (fst (MazeSize pf)) (snd (MazeSize pf)) < chebyshev p c)) \<and>
   (0 \<le> fst c \<and> fst c < fst (MazeSize pf) \<and> 0 \<le> snd c \<and> snd c < snd (MazeSize pf) \<longrightarrow>
      (FindNearestWalkableCell pf c = (-1, -1) \<longleftrightarrow> (\<forall>p. \<not> IsValidCell pf p)))"
proof (intro conjI impI)
  assume b: "0 \<le> fst c \<and> fst c < fst (MazeSize pf) \<and> 0 \<le> snd c \<and> snd c < snd (MazeSize pf)"
  show "FindNearestWalkableCell pf c = (-1, -1) \<longleftrightarrow> (\<forall>p. \<not> IsValidCell pf p)"
    unfolding FindNearestWalkableCell_sentinel_iff
    using in_bounds_chebyshev [of pf _ c] b by fastforce
qed (use FindNearestWalkableCell_find FindNearestWalkableCell_nearest
       FindNearestWalkableCell_sentinel_iff set_ring in blast)+

theorem FindNearestWalkableCell_ring_search_witness:
  "FindNearestWalkableCell (Initialize two_cells (2, 1) ()) (1, 0) = (0, 0) \<and>
   IsValidCell (Initialize two_cells (2, 1) ()) (0, 0) \<and>
   chebyshev (0, 0) (1, 0) = 1 \<and>
   set (ring (1, 0) 1) = {p. chebyshev p (1, 0) = 1} \<and>
   \<not> (\<forall>p. \<not> IsValidCell (Initialize two_cells (2, 1) ()) p)"
proof -
  have r: "FindNearestWalkableCell (Initialize two_cells (2, 1) ()) (1, 0) = (0, 0)"
    by (simp add: FindNearestWalkableCell_def scan_Radius.simps scan_DX.simps scan_DY.simps
          Initialize_def two_cells_def IsValidCell_def GridToIndex_def)
  have c: "chebyshev (0, 0) (1, 0) = 1"
    by (simp add: chebyshev_def)
  have b: "(0::int) \<le> fst (1::int, 0::int) \<and>
           fst (1::int, 0::int) < fst (MazeSize (Initialize two_cells (2, 1) ())) \<and>
           (0::int) \<le> snd (1::int, 0::int) \<and>
           snd (1::int, 0::int) < snd (MazeSize (Initialize two_cells (2, 1) ()))"
    by (simp add: Initialize_def)
  show ?thesis
    using r c b
      FindNearestWalkableCell_ring_search [of "Initialize two_cells (2, 1) ()" "(1, 0)" 1]
    by auto
qed

text \<open>
  The claim as stated fails for an origin far outside the grid: the one-cell grid has a
  walkable cell, and the search from \<open>(5, 5)\<close> stops at radius \<open>1\<close> and returns
  \<open>(-1, -1)\<close>.
\<close>

theorem far_origin_counterexample:
  "\<not> (FindNearestWalkableCell (Initialize one_floor (1, 1) ()) (5, 5) = (-1, -1) \<longleftrightarrow>
       (\<forall>p. \<not> IsValidCell (Initialize one_floor (1, 1) ()) p))"
proof -
  have "IsValidCell (Initialize one_floor (1, 1) ()) (0, 0)"
    by (simp add: Initialize_def one_floor_def IsValidCell_def GridToIndex_def)
  moreover have "FindNearestWalkableCell (Initialize one_floor (1, 1) ()) (5, 5) = (-1, -1)"
    by (simp add: FindNearestWalkableCell_def scan_Radius.simps scan_DX.simps scan_DY.simps
          Initialize_def one_floor_def IsValidCell_def GridToIndex_def)
  ultimately show ?thesis by blast
qed

subsection \<open>Shortest paths\<close>

text \<open>
  The grid as a graph: two cells are neighbours when they differ by one cardinal step, a
  walk is a non-empty sequence of walkable cells in which consecutive cells are
  neighbours, and the distance of two cells is the least number of moves of a walk
  between them.
\<close>

definition adjacent :: "FIntPoint \<Rightarrow> FIntPoint \<Rightarrow> bool" where
  "adjacent p q \<longleftrightarrow> \<bar>fst p - fst q\<bar> + \<bar>snd p - snd q\<bar> = 1"

fun walk :: "('v, 'f) UMazePathfinder \<Rightarrow> FIntPoint list \<Rightarrow> bool" where
  "walk pf [] = False"
| "walk pf [p] = IsValidCell pf p"
| "walk pf (p # q # rest) = (IsValidCell pf p \<and> adjacent p q \<and> walk pf (q # rest))"

definition walk_between ::
  "('v, 'f) UMazePathfinder \<Rightarrow> FIntPoint \<Rightarrow> FIntPoint \<Rightarrow> FIntPoint list \<Rightarrow> bool" where
  "walk_between pf a b w \<longleftrightarrow> walk pf w \<and> hd w = a \<and> last w = b"

definition graph_distance :: "('v, 'f) UMazePathfinder \<Rightarrow> FIntPoint \<Rightarrow> FIntPoint \<Rightarrow> nat" where
  "graph_distance pf a b = (LEAST n. \<exists>w. walk_between pf a b w \<and> length w = Suc n)"

text \<open>
  The invariant of the search loop, with the depth of every visited cell as a ghost
  function \<open>D\<close>: the parents of a visited cell lead back to the start, one level per
  step; a cell that has left the queue is not the target and has all its walkable
  neighbours visited, at most one level deeper; the queue is sorted by depth and spans
  at most two levels; cells that have left the queue are no deeper than queued ones.
\<close>

definition bfs_inv ::
  "('v, 'f) UMazePathfinder \<Rightarrow> FIntPoint \<Rightarrow> FIntPoint \<Rightarrow> (FIntPoint \<Rightarrow> nat) \<Rightarrow> bfs_state \<Rightarrow> bool" where
  "bfs_inv pf Start End D st =
     (case st of (V, P, Q) \<Rightarrow>
        Start \<in> V \<and> D Start = 0 \<and> P Start = Some (-1, -1) \<and>
        (\<forall>v\<in>V. IsValidCell pf v) \<and>
        set Q \<subseteq> V \<and> distinct Q \<and>
        (\<forall>v\<in>V. v \<noteq> Start \<longrightarrow> (\<exists>u\<in>V. P v = Some u \<and> adjacent u v \<and> D v = Suc (D u))) \<and>
        (\<forall>u\<in>V - set Q. u \<noteq> End \<and>
           (\<forall>w. IsValidCell pf w \<and> adjacent u w \<longrightarrow> w \<in> V \<and> D w \<le> Suc (D u))) \<and>
        sorted (map D Q) \<and>
        (\<forall>q\<in>set Q. D q \<le> Suc (D (hd Q))) \<and>
        (\<forall>u\<in>V - set Q. \<forall>q\<in>set Q. D u \<le> D q))"

lemma adjacent_cases:
  "adjacent c n \<longleftrightarrow>
     n = (fst c + 1, snd c + 0) \<or> n = (fst c + -1, snd c + 0) \<or>
     n = (fst c + 0, snd c + 1) \<or> n = (fst c + 0, snd c + -1)"
  by (cases c; cases n) (auto simp add: adjacent_def)

lemma adjacent_sym: "adjacent p q \<Longrightarrow> adjacent q p"
  by (simp add: adjacent_def abs_minus_commute)

lemma GetWalkableNeighbors_iff:
  "n \<in> set (GetWalkableNeighbors pf c) \<longleftrightarrow> IsValidCell pf n \<and> adjacent c n"
  unfolding adjacent_cases by (auto simp add: GetWalkableNeighbors_def Offsets_def)

lemma distinct_GetWalkableNeighbors: "distinct (GetWalkableNeighbors pf c)"
  unfolding GetWalkableNeighbors_def
  by (rule distinct_filter) (simp add: Offsets_def)

lemma visit_neighbors_result:
  "distinct ns \<Longrightarrow>
     visit_neighbors c ns (V, P, Q) =
       (V \<union> set ns, (\<lambda>x. if x \<in> set ns \<and> x \<notin> V then Some c else P x),
        Q @ filter (\<lambda>n. n \<notin> V) ns)"
proof (induction ns arbitrary: V P Q)
  case Nil
  then show ?case by simp
next
  case (Cons n ns)
  then have d: "distinct ns" "n \<notin> set ns" by simp_all
  have f: "filter (\<lambda>x. x \<noteq> n \<and> x \<notin> V) ns = filter (\<lambda>x. x \<notin> V) ns"
    using d(2) by (intro filter_cong) auto
  show ?case
  proof (cases "n \<in> V")
    case True
    then show ?thesis
      using Cons.IH [OF d(1)] by (auto simp add: fun_eq_iff)
  next
    case False
    have 1: "insert n V \<union> set ns = V \<union> set (n # ns)" by auto
    have 2: "(\<lambda>x. if x \<in> set ns \<and> x \<notin> insert n V then Some c else (P(n \<mapsto> c)) x)
               = (\<lambda>x. if x \<in> set (n # ns) \<and> x \<notin> V then Some c else P x)"
      using False by (intro ext) auto
    have 3: "(Q @ [n]) @ filter (\<lambda>x. x \<notin> insert n V) ns = Q @ filter (\<lambda>x. x \<notin> V) (n # ns)"
      using False f by simp
    have "visit_neighbors c (n # ns) (V, P, Q)
            = visit_neighbors c ns (insert n V, P(n \<mapsto> c), Q @ [n])"
      using False by simp
    also have "\<dots> = (insert n V \<union> set ns,
                      (\<lambda>x. if x \<in> set ns \<and> x \<notin> insert n V then Some c else (P(n \<mapsto> c)) x),
                      (Q @ [n]) @ filter (\<lambda>x. x \<notin> insert n V) ns)"
      by (rule Cons.IH [OF d(1)])
    finally show ?thesis unfolding 1 2 3 .
  qed
qed


lemma sorted_map_const: "(\<forall>x\<in>set xs. f x = k) \<Longrightarrow> sorted (map f xs)"
  by (induction xs) auto

lemma bfs_inv_step:
  assumes inv: "bfs_inv pf Start End D (V, P, Current # Q)" and ne: "Current \<noteq> End"
  shows "\<exists>D'. bfs_inv pf Start End D'
                 (visit_neighbors Current (GetWalkableNeighbors pf Current) (V, P, Q))"
proof -
  let ?ns = "GetWalkableNeighbors pf Current"
  define new where "new = (\<lambda>x. x \<in> set ?ns \<and> x \<notin> V)"
  define D' where "D' = (\<lambda>x. if new x then Suc (D Current) else D x)"
  define V' where "V' = V \<union> set ?ns"
  define P' where "P' = (\<lambda>x. if new x then Some Current else P x)"
  define Q' where "Q' = Q @ filter (\<lambda>n. n \<notin> V) ?ns"
  have res: "visit_neighbors Current ?ns (V, P, Q) = (V', P', Q')"
    unfolding V'_def P'_def Q'_def new_def
    by (rule visit_neighbors_result [OF distinct_GetWalkableNeighbors])
  have i1: "Start \<in> V" and i2: "D Start = 0" and i3: "P Start = Some (-1, -1)"
    and i4: "\<forall>v\<in>V. IsValidCell pf v"
    using inv by (simp_all add: bfs_inv_def)
  have i5: "Current \<in> V" "set Q \<subseteq> V" and i6: "Current \<notin> set Q" "distinct Q"
    using inv by (simp_all add: bfs_inv_def)
  have i7: "\<forall>v\<in>V. v \<noteq> Start \<longrightarrow> (\<exists>u\<in>V. P v = Some u \<and> adjacent u v \<and> D v = Suc (D u))"
    using inv by (simp add: bfs_inv_def)
  have i8: "\<forall>u\<in>V - set (Current # Q). u \<noteq> End \<and>
              (\<forall>w. IsValidCell pf w \<and> adjacent u w \<longrightarrow> w \<in> V \<and> D w \<le> Suc (D u))"
    using inv by (simp add: bfs_inv_def)
  have i9: "\<forall>q\<in>set Q. D Current \<le> D q" "sorted (map D Q)"
    using inv by (simp_all add: bfs_inv_def)
  have i10: "\<forall>q\<in>set Q. D q \<le> Suc (D Current)"
    using inv by (simp add: bfs_inv_def)
  have i11: "\<forall>u\<in>V - set (Current # Q). D u \<le> D Current \<and> (\<forall>q\<in>set Q. D u \<le> D q)"
    using inv by (simp add: bfs_inv_def)
  have newD: "new x \<Longrightarrow> IsValidCell pf x \<and> adjacent Current x \<and> x \<notin> V" for x
    by (simp add: new_def GetWalkableNeighbors_iff)
  have newI: "IsValidCell pf x \<Longrightarrow> adjacent Current x \<Longrightarrow> x \<notin> V \<Longrightarrow> new x" for x
    by (simp add: new_def GetWalkableNeighbors_iff)
  have Dold: "x \<in> V \<Longrightarrow> D' x = D x" for x
    by (simp add: D'_def new_def)
  have Dnew: "new x \<Longrightarrow> D' x = Suc (D Current)" for x
    by (simp add: D'_def)
  have Pold: "x \<in> V \<Longrightarrow> P' x = P x" for x
    by (simp add: P'_def new_def)
  have Pnew: "new x \<Longrightarrow> P' x = Some Current" for x
    by (simp add: P'_def)
  have V'_iff: "x \<in> V' \<longleftrightarrow> x \<in> V \<or> new x" for x
    by (auto simp add: V'_def new_def)
  have Q'_iff: "x \<in> set Q' \<longleftrightarrow> x \<in> set Q \<or> new x" for x
    by (auto simp add: Q'_def new_def)
  have proc_iff: "x \<in> V' - set Q' \<longleftrightarrow> x = Current \<or> x \<in> V - set (Current # Q)" for x
    using i5 i6 newD [of x] by (simp add: V'_iff Q'_iff; blast)
  have DQ': "D Current \<le> D' q \<and> D' q \<le> Suc (D Current)" if "q \<in> set Q'" for q
  proof (cases "new q")
    case True
    then show ?thesis by (simp add: Dnew)
  next
    case False
    then have "q \<in> set Q" using that by (simp add: Q'_iff)
    then show ?thesis using i9(1) i10 i5(2) by (auto simp add: Dold)
  qed
  have c1: "Start \<in> V'" using i1 by (simp add: V'_iff)
  have c2: "D' Start = 0" using i1 i2 by (simp add: Dold)
  have c3: "P' Start = Some (-1, -1)" using i1 i3 by (simp add: Pold)
  have c4: "\<forall>v\<in>V'. IsValidCell pf v"
  proof
    fix v assume "v \<in> V'"
    then show "IsValidCell pf v" using i4 newD [of v] unfolding V'_iff by blast
  qed
  have c5: "set Q' \<subseteq> V'" using i5(2) by (auto simp add: V'_iff Q'_iff)
  have c6: "distinct Q'"
    using i6(2) i5(2) distinct_GetWalkableNeighbors [of pf Current]
    by (auto simp add: Q'_def)
  have c7: "\<forall>v\<in>V'. v \<noteq> Start \<longrightarrow> (\<exists>u\<in>V'. P' v = Some u \<and> adjacent u v \<and> D' v = Suc (D' u))"
  proof (intro ballI impI)
    fix v assume v: "v \<in> V'" "v \<noteq> Start"
    show "\<exists>u\<in>V'. P' v = Some u \<and> adjacent u v \<and> D' v = Suc (D' u)"
    proof (cases "new v")
      case True
      then have "P' v = Some Current \<and> adjacent Current v \<and> D' v = Suc (D' Current)"
        using newD [OF True] i5(1) by (simp add: Pnew Dnew Dold)
      moreover have "Current \<in> V'" using i5(1) by (simp add: V'_iff)
      ultimately show ?thesis by blast
    next
      case False
      then have vV: "v \<in> V" using v(1) by (simp add: V'_iff)
      then obtain u where "u \<in> V" "P v = Some u" "adjacent u v" "D v = Suc (D u)"
        using i7 v(2) by blast
      then have "u \<in> V' \<and> P' v = Some u \<and> adjacent u v \<and> D' v = Suc (D' u)"
        using vV by (simp add: V'_iff Pold Dold)
      then show ?thesis by blast
    qed
  qed
  have c8: "\<forall>u\<in>V' - set Q'. u \<noteq> End \<and>
              (\<forall>w. IsValidCell pf w \<and> adjacent u w \<longrightarrow> w \<in> V' \<and> D' w \<le> Suc (D' u))"
  proof (intro ballI conjI allI impI)
    fix u assume u: "u \<in> V' - set Q'"
    show "u \<noteq> End" using u ne i8 unfolding proc_iff by blast
    fix w assume w: "IsValidCell pf w \<and> adjacent u w"
    have uV: "u \<in> V" using u i5(1) unfolding proc_iff by blast
    show "w \<in> V'"
    proof (cases "u = Current")
      case True
      then show ?thesis using w newI [of w] unfolding V'_iff by blast
    next
      case False
      then have "u \<in> V - set (Current # Q)" using u unfolding proc_iff by blast
      then show ?thesis using w i8 unfolding V'_iff by blast
    qed
    show "D' w \<le> Suc (D' u)"
    proof (cases "u = Current")
      case True
      show ?thesis
      proof (cases "new w")
        case True
        then show ?thesis using \<open>u = Current\<close> uV by (simp add: Dnew Dold)
      next
        case False
        then have wV: "w \<in> V" using w \<open>u = Current\<close> newI by blast
        have "D w \<le> Suc (D Current)"
        proof (cases "w \<in> set (Current # Q)")
          case True
          then show ?thesis using i10 by auto
        next
          case False
          then have "w \<in> V - set (Current # Q)" using wV by blast
          then have "D w \<le> D Current" using i11 by blast
          then show ?thesis by simp
        qed
        then show ?thesis using \<open>u = Current\<close> uV wV by (simp add: Dold)
      qed
    next
      case False
      then have "u \<in> V - set (Current # Q)" using u unfolding proc_iff by blast
      then have "w \<in> V \<and> D w \<le> Suc (D u)" using i8 w by blast
      then show ?thesis using uV by (simp add: Dold)
    qed
  qed
  have c9: "sorted (map D' Q')"
  proof -
    have "map D' Q = map D Q"
      by (rule map_cong [OF refl]) (use i5(2) Dold in blast)
    then have a: "sorted (map D' Q)" using i9(2) by (simp only:)
    have b: "sorted (map D' (filter (\<lambda>n. n \<notin> V) ?ns))"
      by (rule sorted_map_const [where k = "Suc (D Current)"]) (simp add: D'_def new_def)
    have c: "\<forall>x\<in>set Q. \<forall>y\<in>set (filter (\<lambda>n. n \<notin> V) ?ns). D' x \<le> D' y"
      using i10 i5(2) by (auto simp add: D'_def new_def)
    show ?thesis
      unfolding Q'_def using a b c by (simp add: sorted_append)
  qed
  have c10: "\<forall>q\<in>set Q'. D' q \<le> Suc (D' (hd Q'))"
  proof
    fix q assume q: "q \<in> set Q'"
    then have "Q' \<noteq> []" by auto
    then have "hd Q' \<in> set Q'" by simp
    then show "D' q \<le> Suc (D' (hd Q'))"
      using DQ' [of q] DQ' [of "hd Q'"] q by linarith
  qed
  have c11: "\<forall>u\<in>V' - set Q'. \<forall>q\<in>set Q'. D' u \<le> D' q"
  proof (intro ballI)
    fix u q assume u: "u \<in> V' - set Q'" and q: "q \<in> set Q'"
    have uV: "u \<in> V" using u i5(1) unfolding proc_iff by blast
    have "u = Current \<or> u \<in> V - set (Current # Q)" using u unfolding proc_iff by blast
    then have "D u \<le> D Current" using i11 by blast
    then show "D' u \<le> D' q" using DQ' [OF q] uV by (simp add: Dold)
  qed
  have "bfs_inv pf Start End D' (V', P', Q')"
    unfolding bfs_inv_def prod.case
    using c1 c2 c3 c4 c5 c6 c7 c8 c9 c10 c11 by blast
  then show ?thesis unfolding res by blast
qed


lemma bfs_loop_final:
  "bfs_inv pf Start End D st \<Longrightarrow>
     (\<exists>P' V' Q' D'. bfs_loop pf End st = (True, P') \<and> bfs_inv pf Start End D' (V', P', End # Q')) \<or>
     (\<exists>P' V' D'. bfs_loop pf End st = (False, P') \<and> bfs_inv pf Start End D' (V', P', []))"
proof (induction pf End st arbitrary: D rule: bfs_loop.induct)
  case (1 pf End Visited Parents)
  then show ?case by auto
next
  case (2 pf End Visited Parents Current Queue)
  show ?case
  proof (cases "Current = End")
    case True
    then show ?thesis using "2.prems" by auto
  next
    case False
    from bfs_inv_step [OF "2.prems" False] obtain D' where
      "bfs_inv pf Start End D'
         (visit_neighbors Current (GetWalkableNeighbors pf Current) (Visited, Parents, Queue))"
      by blast
    from "2.IH" [OF False this] show ?thesis using False by simp
  qed
qed

lemma walk_snoc:
  "walk pf w \<Longrightarrow> adjacent (last w) v \<Longrightarrow> IsValidCell pf v \<Longrightarrow> walk pf (w @ [v])"
  by (induction pf w rule: walk.induct) auto

lemma walk_nonempty: "walk pf w \<Longrightarrow> w \<noteq> []"
  by auto

lemma reconstruct_chain:
  assumes s: "Start \<in> V" "P Start = Some (-1, -1)" "D Start = 0" "\<forall>v\<in>V. IsValidCell pf v"
    and par: "\<forall>v\<in>V. v \<noteq> Start \<longrightarrow> (\<exists>u\<in>V. P v = Some u \<and> adjacent u v \<and> D v = Suc (D u))"
  shows "v \<in> V \<Longrightarrow> D v = n \<Longrightarrow>
           \<exists>c. reconstruct P v acc = Some (acc @ c) \<and> walk pf (rev c) \<and>
               hd (rev c) = Start \<and> last (rev c) = v \<and> length c = Suc (D v)"
proof (induction n arbitrary: v acc)
  case 0
  have "v = Start" using par 0 by fastforce
  have "Start \<noteq> (-1, -1)" using s(1,4) IsValidCell_not_sentinel by blast
  then have "reconstruct P Start acc = Some (acc @ [Start])"
    using s(2) by (simp add: reconstruct.simps)
  then show ?case using \<open>v = Start\<close> s by auto
next
  case (Suc n)
  have vs: "v \<noteq> Start" using Suc.prems s(3) by auto
  then obtain u where u: "u \<in> V" "P v = Some u" "adjacent u v" "D v = Suc (D u)"
    using par Suc.prems(1) by blast
  then have "D u = n" using Suc.prems(2) by simp
  from Suc.IH [OF u(1) this, of "acc @ [v]"] obtain c where
    c: "reconstruct P u (acc @ [v]) = Some ((acc @ [v]) @ c)" "walk pf (rev c)"
       "hd (rev c) = Start" "last (rev c) = u" "length c = Suc (D u)"
    by blast
  have "v \<noteq> (-1, -1)" using Suc.prems(1) s(4) IsValidCell_not_sentinel by blast
  then have 1: "reconstruct P v acc = Some (acc @ (v # c))"
    using u(2) c(1) by (subst reconstruct.simps) simp
  have "IsValidCell pf v" using Suc.prems(1) s(4) by blast
  then have 2: "walk pf (rev (v # c))"
    using walk_snoc [OF c(2)] c(4) u(3) by simp
  have "rev c \<noteq> []" using c(2) by auto
  then have 3: "hd (rev (v # c)) = Start" using c(3) by simp
  show ?case using 1 2 3 c(5) u(4) by (intro exI [of _ "v # c"]) simp
qed

lemma walk_lower_bound:
  assumes inv: "bfs_inv pf Start End D (V, P, End # Q)"
  shows "walk pf w \<Longrightarrow> hd w \<in> V \<Longrightarrow> last w = End \<Longrightarrow> Suc (D End) \<le> D (hd w) + length w"
proof (induction w)
  case Nil
  then show ?case by simp
next
  case (Cons x xs)
  show ?case
  proof (cases xs)
    case Nil
    then show ?thesis using Cons.prems by simp
  next
    case (Cons y rest)
    then have w: "IsValidCell pf x" "adjacent x y" "walk pf xs"
      using Cons.prems(1) by simp_all
    show ?thesis
    proof (cases "x \<in> set (End # Q)")
      case True
      have "\<forall>q\<in>set (End # Q). D End \<le> D q"
        using inv by (auto simp add: bfs_inv_def)
      then have "D End \<le> D x" using True by blast
      then show ?thesis by simp
    next
      case False
      then have "x \<in> V - set (End # Q)" using Cons.prems(2) by simp
      moreover have "\<forall>u\<in>V - set (End # Q).
              (\<forall>w. IsValidCell pf w \<and> adjacent u w \<longrightarrow> w \<in> V \<and> D w \<le> Suc (D u))"
        using inv by (simp add: bfs_inv_def)
      moreover have "IsValidCell pf y" using w(3) Cons by (cases rest) simp_all
      ultimately have y: "y \<in> V" "D y \<le> Suc (D x)" using w(2) by blast+
      have "Suc (D End) \<le> D (hd xs) + length xs"
        using Cons.IH [OF w(3)] y(1) Cons.prems(3) Cons by simp
      then show ?thesis using y(2) Cons by simp
    qed
  qed
qed

lemma walk_closed:
  assumes inv: "bfs_inv pf Start End D (V, P, [])"
  shows "walk pf w \<Longrightarrow> hd w \<in> V \<Longrightarrow> last w \<in> V"
proof (induction w)
  case Nil
  then show ?case by simp
next
  case (Cons x xs)
  show ?case
  proof (cases xs)
    case Nil
    then show ?thesis using Cons.prems by simp
  next
    case (Cons y rest)
    then have w: "IsValidCell pf x" "adjacent x y" "walk pf xs"
      using Cons.prems(1) by simp_all
    have "\<forall>u\<in>V. (\<forall>w. IsValidCell pf w \<and> adjacent u w \<longrightarrow> w \<in> V)"
      using inv by (simp add: bfs_inv_def)
    moreover have "IsValidCell pf y" using w(3) Cons by (cases rest) simp_all
    moreover have "x \<in> V" using Cons.prems(2) by simp
    ultimately have "y \<in> V" using w(2) by blast
    then show ?thesis using Cons.IH [OF w(3)] Cons by simp
  qed
qed

lemma bfs_inv_initial:
  "IsValidCell pf Start \<Longrightarrow> Start \<noteq> End \<Longrightarrow>
     bfs_inv pf Start End (\<lambda>_. 0) ({Start}, [Start \<mapsto> (-1, -1)], [Start])"
  by (simp add: bfs_inv_def)


lemma graph_distance_eq:
  assumes "walk_between pf a b p" "\<forall>w. walk_between pf a b w \<longrightarrow> length p \<le> length w"
  shows "graph_distance pf a b = length p - 1"
  unfolding graph_distance_def
proof (rule Least_equality)
  have "p \<noteq> []" using assms(1) by (auto simp add: walk_between_def)
  then have "length p = Suc (length p - 1)" by (cases p) simp_all
  then show "\<exists>w. walk_between pf a b w \<and> length w = Suc (length p - 1)"
    using assms(1) by blast
next
  fix n assume "\<exists>w. walk_between pf a b w \<and> length w = Suc n"
  then show "length p - 1 \<le> n" using assms(2) by fastforce
qed

lemma FindPath_correct:
  assumes init: "bIsInitialized pf" and a: "IsValidCell pf a" and b: "IsValidCell pf b"
  shows "\<exists>r. FindPath GridToWorld pf a b = Some r \<and>
             (bSuccess r \<longleftrightarrow> (\<exists>w. walk_between pf a b w)) \<and>
             (bSuccess r \<longrightarrow>
                walk_between pf a b (PathGridCoordinates r) \<and>
                PathLength r = int (length (PathGridCoordinates r)) \<and>
                PathWorldPositions r = map GridToWorld (PathGridCoordinates r) \<and>
                (\<forall>w. walk_between pf a b w \<longrightarrow> length (PathGridCoordinates r) \<le> length w))"
proof (cases "a = b")
  case True
  have "walk_between pf a b [a]" using a True by (simp add: walk_between_def)
  moreover have "\<forall>w. walk_between pf a b w \<longrightarrow> length [a] \<le> length w"
    by (auto simp add: walk_between_def Suc_le_eq)
  ultimately show ?thesis
    using init a b True by (auto simp add: FindPath_def)
next
  case False
  let ?st = "({a}, [a \<mapsto> (-1, -1)], [a])"
  have fp: "FindPath GridToWorld pf a b =
          (let (bFoundPath, Parents) = bfs_loop pf b ?st
           in if \<not> bFoundPath then Some FailedResult
              else (case reconstruct Parents b [] of
                      None \<Rightarrow> None
                    | Some ReversedPath \<Rightarrow>
                        Some \<lparr> bSuccess = True,
                               PathGridCoordinates = rev ReversedPath,
                               PathWorldPositions = map GridToWorld (rev ReversedPath),
                               PathLength = int (length (rev ReversedPath)) \<rparr>))"
    using init a b False by (simp add: FindPath_def)
  from bfs_loop_final [OF bfs_inv_initial [OF a False]]
  consider
    (found) P' V' Q' D' where "bfs_loop pf b ?st = (True, P')"
      "bfs_inv pf a b D' (V', P', b # Q')"
  | (none) P' V' D' where "bfs_loop pf b ?st = (False, P')"
      "bfs_inv pf a b D' (V', P', [])"
    by blast
  then show ?thesis
  proof cases
    case found
    have i: "a \<in> V'" "P' a = Some (-1, -1)" "D' a = 0" "\<forall>v\<in>V'. IsValidCell pf v"
      "\<forall>v\<in>V'. v \<noteq> a \<longrightarrow> (\<exists>u\<in>V'. P' v = Some u \<and> adjacent u v \<and> D' v = Suc (D' u))"
      "b \<in> V'"
      using found(2) by (simp_all add: bfs_inv_def)
    from reconstruct_chain [OF i(1-5) i(6) refl, of "[]"] obtain c where
      c: "reconstruct P' b [] = Some c" "walk pf (rev c)" "hd (rev c) = a" "last (rev c) = b"
         "length c = Suc (D' b)"
      by auto
    have lb: "length (rev c) \<le> length w" if "walk_between pf a b w" for w
    proof -
      have "walk pf w" "hd w \<in> V'" "last w = b" "hd w = a"
        using that i(1) by (simp_all add: walk_between_def)
      from walk_lower_bound [OF found(2) this(1-3)] show ?thesis
        using c(5) i(3) \<open>hd w = a\<close> by simp
    qed
    have wb: "walk_between pf a b (rev c)" using c by (simp add: walk_between_def)
    have "FindPath GridToWorld pf a b =
            Some \<lparr> bSuccess = True, PathGridCoordinates = rev c,
                   PathWorldPositions = map GridToWorld (rev c),
                   PathLength = int (length (rev c)) \<rparr>"
      unfolding fp using found(1) c(1) by simp
    then show ?thesis using wb lb by auto
  next
    case none
    have "\<not> (\<exists>w. walk_between pf a b w)"
    proof
      assume "\<exists>w. walk_between pf a b w"
      then obtain w where w: "walk pf w" "hd w = a" "last w = b"
        by (auto simp add: walk_between_def)
      have "a \<in> V'" using none(2) by (simp add: bfs_inv_def)
      then have "b \<in> V'" using walk_closed [OF none(2) w(1)] w(2,3) by simp
      moreover have "\<forall>u\<in>V'. u \<noteq> b" using none(2) by (simp add: bfs_inv_def)
      ultimately show False by blast
    qed
    moreover have "FindPath GridToWorld pf a b = Some FailedResult"
      unfolding fp using none(1) by simp
    ultimately show ?thesis by (simp add: FailedResult_def)
  qed
qed

definition corner_cells :: "unit FMazeCell list" where
  "corner_cells =
     [\<lparr> GridPosition = (0, 0), WorldPosition = (), bIsFloor = True, bIsOnPath = False,
        InstanceIndex = -1 \<rparr>,
      \<lparr> GridPosition = (1, 0), WorldPosition = (), bIsFloor = False, bIsOnPath = False,
        InstanceIndex = -1 \<rparr>,
      \<lparr> GridPosition = (0, 1), WorldPosition = (), bIsFloor = True, bIsOnPath = False,
        InstanceIndex = -1 \<rparr>,
      \<lparr> GridPosition = (1, 1), WorldPosition = (), bIsFloor = True, bIsOnPath = False,
        InstanceIndex = -1 \<rparr>]"

lemma FindPath_corner:
  "FindPath (\<lambda>_. ()) (Initialize corner_cells (2, 2) ()) (0, 0) (1, 1) =
     Some \<lparr> bSuccess = True, PathGridCoordinates = [(0, 0), (0, 1), (1, 1)],
            PathWorldPositions = [(), (), ()], PathLength = 3 \<rparr>"
  by (simp add: FindPath_def Initialize_def corner_cells_def IsValidCell_def GridToIndex_def
        GetWalkableNeighbors_def Offsets_def reconstruct.simps int32_def)

text \<open>
  Claim C1. For a pathfinder initialised with as many cells as its dimensions say and
  two walkable cells \<open>a\<close> and \<open>b\<close>, \<open>FindPath\<close> returns; it succeeds exactly when a walk
  of cardinal floor-to-floor moves leads from \<open>a\<close> to \<open>b\<close>; and on success the returned
  coordinates are such a walk from \<open>a\<close> to \<open>b\<close>, \<open>PathLength\<close> is their number, no walk
  from \<open>a\<close> to \<open>b\<close> is shorter, and \<open>PathLength - 1\<close> is the distance of \<open>a\<close> and \<open>b\<close>.
\<close>

theorem FindPath_shortest:
  assumes "int (length InCells) = fst InMazeSize * snd InMazeSize"
    and "IsValidCell (Initialize InCells InMazeSize InCellSize) a"
    and "IsValidCell (Initialize InCells InMazeSize InCellSize) b"
  shows "\<exists>r. FindPath GridToWorld (Initialize InCells InMazeSize InCellSize) a b = Some r \<and>
           (bSuccess r \<longleftrightarrow> (\<exists>w. walk_between (Initialize InCells InMazeSize InCellSize) a b w)) \<and>
           (bSuccess r \<longrightarrow>
              walk_between (Initialize InCells InMazeSize InCellSize) a b (PathGridCoordinates r) \<and>
              PathLength r = int (length (PathGridCoordinates r)) \<and>
              (\<forall>w. walk_between (Initialize InCells InMazeSize InCellSize) a b w \<longrightarrow>
                 length (PathGridCoordinates r) \<le> length w) \<and>
              PathLength r - 1 = int (graph_distance (Initialize InCells InMazeSize InCellSize) a b))"
proof -
  let ?pf = "Initialize InCells InMazeSize InCellSize"
  have "bIsInitialized ?pf" using assms(1) by (simp add: Initialize_def)
  from FindPath_correct [OF this assms(2,3), of GridToWorld] obtain r where
    r: "FindPath GridToWorld ?pf a b = Some r"
       "bSuccess r \<longleftrightarrow> (\<exists>w. walk_between ?pf a b w)"
       "bSuccess r \<longrightarrow>
                walk_between ?pf a b (PathGridCoordinates r) \<and>
                PathLength r = int (length (PathGridCoordinates r)) \<and>
                (\<forall>w. walk_between ?pf a b w \<longrightarrow> length (PathGridCoordinates r) \<le> length w)"
    by blast
  have "PathLength r - 1 = int (graph_distance ?pf a b)" if "bSuccess r"
  proof -
    have 1: "walk_between ?pf a b (PathGridCoordinates r)"
      and 2: "\<forall>w. walk_between ?pf a b w \<longrightarrow> length (PathGridCoordinates r) \<le> length w"
      and 3: "PathLength r = int (length (PathGridCoordinates r))"
      using r(3) that by blast+
    have "PathGridCoordinates r \<noteq> []" using 1 by (auto simp add: walk_between_def)
    then show ?thesis using graph_distance_eq [OF 1 2] 3 by (cases "PathGridCoordinates r") simp_all
  qed
  then show ?thesis using r by blast
qed


theorem FindPath_shortest_witness:
  "int (length corner_cells) = fst (2::int, 2::int) * snd (2::int, 2::int) \<and>
   IsValidCell (Initialize corner_cells (2, 2) ()) (0, 0) \<and>
   IsValidCell (Initialize corner_cells (2, 2) ()) (1, 1) \<and>
   FindPath (\<lambda>_. ()) (Initialize corner_cells (2, 2) ()) (0, 0) (1, 1) =
     Some \<lparr> bSuccess = True, PathGridCoordinates = [(0, 0), (0, 1), (1, 1)],
            PathWorldPositions = [(), (), ()], PathLength = 3 \<rparr> \<and>
   walk_between (Initialize corner_cells (2, 2) ()) (0, 0) (1, 1) [(0, 0), (0, 1), (1, 1)] \<and>
   graph_distance (Initialize corner_cells (2, 2) ()) (0, 0) (1, 1) = 2"
proof -
  have l: "int (length corner_cells) = fst (2::int, 2::int) * snd (2::int, 2::int)"
    by (simp add: corner_cells_def)
  have a: "IsValidCell (Initialize corner_cells (2, 2) ()) (0, 0)"
    by (simp add: Initialize_def corner_cells_def IsValidCell_def GridToIndex_def)
  have b: "IsValidCell (Initialize corner_cells (2, 2) ()) (1, 1)"
    by (simp add: Initialize_def corner_cells_def IsValidCell_def GridToIndex_def)
  from FindPath_shortest [OF l a b, of "\<lambda>_. ()"] show ?thesis
    using l a b by (auto simp add: FindPath_corner)
qed

subsection \<open>Coordinate conversion\<close>

text \<open>
  \<open>WorldToGrid\<close> and \<open>GridToWorld\<close> compute in floating point. A finite floating-point
  value is the rational number it denotes, and an operation is the exact operation
  followed by one rounding to nearest, ties to even, in the format of the type that C++
  gives to the operation. A format is a precision in bits with the least and the
  greatest exponent. The value \<open>None\<close> stands for a result that is not a finite number,
  which is not followed further.
\<close>

type_synonym float_format = "nat \<times> int \<times> int"

definition binary32 :: float_format where
  "binary32 = (24, -126, 127)"

definition binary64 :: float_format where
  "binary64 = (53, -1022, 1023)"

text \<open>
  The exponent \<open>e\<close> of a positive rational \<open>r\<close>, with \<open>2^e \<le> r < 2^(e+1)\<close>, from the bit
  lengths of its numerator and denominator.
\<close>

definition exponent_of :: "rat \<Rightarrow> int" where
  "exponent_of r =
     (let (a, b) = quotient_of r; k = bitlen a - bitlen b
      in if 2 powi k \<le> r then k else k - 1)"

text \<open>The nearest integer, the even one of the two when they are equally near.\<close>

definition round_half_even :: "rat \<Rightarrow> int" where
  "round_half_even m =
     (let f = \<lfloor>m\<rfloor>; d = m - of_int f
      in if d < 1 / 2 then f else if 1 / 2 < d then f + 1 else if even f then f else f + 1)"

text \<open>
  Rounding to a format: the quantum is \<open>2^(e - p + 1)\<close> for the exponent \<open>e\<close> of the value,
  or for the least exponent below it (subnormal values); a rounded value of \<open>2^(emax + 1)\<close>
  or more is an overflow.
\<close>

definition round_to :: "float_format \<Rightarrow> rat \<Rightarrow> rat option" where
  "round_to fmt r =
     (case fmt of (p, emin, emax) \<Rightarrow>
        if r = 0 then Some 0
        else let e = max (exponent_of \<bar>r\<bar>) emin;
                 q = e - (int p - 1);
                 v = of_int (round_half_even (r / 2 powi q)) * 2 powi q
             in if \<bar>v\<bar> < 2 powi (emax + 1) then Some v else None)"

text \<open>
  Modelled from the spec: \<open>FMath::FloorToInt\<close> is engine code that is not among the
  sources; the specification gives \<open>floor\<close>. The result is an \<open>int32\<close>, so a value whose
  floor is outside its range has no result here.
\<close>

definition FloorToInt :: "rat \<Rightarrow> int option" where
  "FloorToInt F =
     (let n = \<lfloor>F\<rfloor> in if - 2147483648 \<le> n \<and> n < 2147483648 then Some n else None)"

text \<open>Division, in the given format; a division by zero is not a finite number.\<close>

definition float_div :: "float_format \<Rightarrow> rat \<Rightarrow> rat \<Rightarrow> rat option" where
  "float_div fmt a b = (if b = 0 then None else round_to fmt (a / b))"

text \<open>
  \<open>GridToWorld\<close>. Each component is \<open>GridPosition.X * CellSize + CellSize * 0.5f\<close>, of type
  \<open>float\<close>: the coordinate is converted to \<open>float\<close>, and the two products and the sum are
  \<open>float\<close> operations. The conversion of the result to the component type of \<open>FVector\<close> is
  exact.
\<close>

definition GridToWorld_component :: "rat \<Rightarrow> int \<Rightarrow> rat option" where
  "GridToWorld_component InCellSize X =
     Option.bind (round_to binary32 (of_int X)) (\<lambda>Xf.
     Option.bind (round_to binary32 (Xf * InCellSize)) (\<lambda>Scaled.
     Option.bind (round_to binary32 (InCellSize * (1 / 2))) (\<lambda>Half.
       round_to binary32 (Scaled + Half))))"

definition GridToWorld ::
  "('v, rat) UMazePathfinder \<Rightarrow> FIntPoint \<Rightarrow> (rat \<times> rat \<times> rat) option" where
  "GridToWorld pf GridPos =
     Option.bind (GridToWorld_component (CellSize pf) (fst GridPos)) (\<lambda>WorldX.
     Option.bind (GridToWorld_component (CellSize pf) (snd GridPos)) (\<lambda>WorldY.
       Some (WorldX, WorldY, 0)))"

text \<open>
  \<open>WorldToGrid\<close>. The component type of \<open>FVector\<close> is declared by the engine, \<open>float\<close>
  (\<open>binary32\<close>) or \<open>double\<close> (\<open>binary64\<close>) by its version; it is the parameter \<open>fmt\<close>, the
  format of the division \<open>WorldPosition.X / CellSize\<close>.
\<close>

definition WorldToGrid_component :: "float_format \<Rightarrow> rat \<Rightarrow> rat \<Rightarrow> int option" where
  "WorldToGrid_component fmt InCellSize World =
     Option.bind (float_div fmt World InCellSize) FloorToInt"

definition WorldToGrid ::
  "float_format \<Rightarrow> ('v, rat) UMazePathfinder \<Rightarrow> rat \<times> rat \<times> rat \<Rightarrow> FIntPoint option" where
  "WorldToGrid fmt pf WorldPos =
     (case WorldPos of (WorldX, WorldY, WorldZ) \<Rightarrow>
        Option.bind (WorldToGrid_component fmt (CellSize pf) WorldX) (\<lambda>GridX.
        Option.bind (WorldToGrid_component fmt (CellSize pf) WorldY) (\<lambda>GridY.
          Some (GridX, GridY))))"

text \<open>The error of one rounding, for a value in the normal range of the format.\<close>

lemma bitlen_powi_bounds:
  assumes "0 < x"
  shows "2 powi (bitlen x - 1) \<le> (of_int x :: rat)" "(of_int x :: rat) < 2 powi bitlen x"
proof -
  have b: "2 ^ nat (bitlen x - 1) \<le> x" "x < 2 ^ nat (bitlen x)"
    using bitlen_bounds [OF assms] by simp_all
  have "1 \<le> bitlen x"
  proof (rule ccontr)
    assume "\<not> 1 \<le> bitlen x"
    then have "nat (bitlen x) = 0" by simp
    with b(2) assms show False by simp
  qed
  then have e: "2 powi (bitlen x - 1) = (2::rat) ^ nat (bitlen x - 1)"
    "2 powi bitlen x = (2::rat) ^ nat (bitlen x)"
    by (simp_all add: power_int_def)
  have "(of_int (2 ^ nat (bitlen x - 1)) :: rat) \<le> of_int x"
    using b(1) by (simp only: of_int_le_iff)
  then show "2 powi (bitlen x - 1) \<le> (of_int x :: rat)" unfolding e by simp
  have "(of_int x :: rat) < of_int (2 ^ nat (bitlen x))"
    using b(2) by (simp only: of_int_less_iff)
  then show "(of_int x :: rat) < 2 powi bitlen x" unfolding e by simp
qed

lemma exponent_of_bounds:
  assumes "0 < r"
  shows "2 powi exponent_of r \<le> r" "r < 2 powi (exponent_of r + 1)"
proof -
  obtain a b where q: "quotient_of r = (a, b)" by (cases "quotient_of r")
  have b: "0 < b" using q by (rule quotient_of_denom_pos)
  have r: "r = of_int a / of_int b" using q by (rule quotient_of_div)
  have a: "0 < a" using assms b unfolding r by (simp add: zero_less_divide_iff)
  let ?k = "bitlen a - bitlen b"
  note ba = bitlen_powi_bounds [OF a]
  note bb = bitlen_powi_bounds [OF b]
  have pb: "(0::rat) < of_int b" using b by simp
  have "r < 2 powi bitlen a / of_int b"
    unfolding r using ba(2) pb by (simp add: divide_strict_right_mono)
  also have "\<dots> \<le> 2 powi bitlen a / 2 powi (bitlen b - 1)"
    using bb(1) b by (intro divide_left_mono) (simp_all add: zero_less_mult_iff)
  also have "\<dots> = 2 powi (?k + 1)"
    by (simp add: power_int_diff power_int_add)
  finally have up: "r < 2 powi (?k + 1)" .
  have "2 powi (?k - 1) = 2 powi (bitlen a - 1) / (2 powi bitlen b :: rat)"
    by (simp add: power_int_diff)
  also have "\<dots> \<le> of_int a / 2 powi bitlen b"
    using ba(1) by (simp add: divide_right_mono)
  also have "\<dots> \<le> r"
    unfolding r using bb(2) a b by (intro divide_left_mono) (simp_all add: zero_less_mult_iff)
  finally have lo: "2 powi (?k - 1) \<le> r" .
  have e: "exponent_of r = (if 2 powi ?k \<le> r then ?k else ?k - 1)"
    by (simp add: exponent_of_def q Let_def)
  show "2 powi exponent_of r \<le> r" unfolding e using lo by simp
  show "r < 2 powi (exponent_of r + 1)" unfolding e using up by auto
qed

lemma round_half_even_error: "\<bar>of_int (round_half_even m) - m\<bar> \<le> 1 / 2"
proof -
  have "of_int \<lfloor>m\<rfloor> \<le> m" "m < of_int \<lfloor>m\<rfloor> + 1" by linarith+
  then show ?thesis
    by (auto simp add: round_half_even_def Let_def abs_le_iff)
qed

lemma round_to_error:
  assumes lo: "2 powi emin \<le> r"
    and hi: "r * (1 + 2 powi (- int p)) < 2 powi (emax + 1)"
  shows "\<exists>v. round_to (p, emin, emax) r = Some v \<and> \<bar>v - r\<bar> \<le> r * 2 powi (- int p)"
proof -
  have pos: "0 < r" using lo zero_less_power_int [of "2::rat" emin] by linarith
  note eb = exponent_of_bounds [OF pos]
  let ?e = "exponent_of r"
  have "(2::rat) powi emin < 2 powi (?e + 1)" using lo eb(2) by linarith
  then have "emin < ?e + 1"
    using power_int_increasing [of "?e + 1" emin "2::rat"] by (cases "emin < ?e + 1") simp_all
  then have m: "max (exponent_of r) emin = ?e" by simp
  let ?q = "?e - (int p - 1)"
  let ?n = "round_half_even (r / 2 powi ?q)"
  let ?v = "of_int ?n * 2 powi ?q :: rat"
  have qp: "(0::rat) < 2 powi ?q" by simp
  have "\<bar>?v - r\<bar> = \<bar>of_int ?n - r / 2 powi ?q\<bar> * 2 powi ?q"
  proof -
    have "?v - r = (of_int ?n - r / 2 powi ?q) * 2 powi ?q"
      using qp by (simp add: field_simps)
    then show ?thesis using qp by (simp add: abs_mult)
  qed
  also have "\<dots> \<le> 1 / 2 * 2 powi ?q"
    using round_half_even_error [of "r / 2 powi ?q"] qp by (intro mult_right_mono) simp_all
  also have "\<dots> = 2 powi ?e * 2 powi (- int p)"
  proof -
    have eq: "?q = ?e + (- int p) + 1" by simp
    have "(2::rat) powi ?q = 2 powi (?e + (- int p) + 1)" by (simp only: eq)
    also have "\<dots> = 2 powi ?e * 2 powi (- int p) * 2 powi 1"
      by (simp only: power_int_add [of "2::rat"] simp_thms rel_simps)
    finally show ?thesis by simp
  qed
  also have "\<dots> \<le> r * 2 powi (- int p)"
    using eb(1) by (intro mult_right_mono) simp_all
  finally have err: "\<bar>?v - r\<bar> \<le> r * 2 powi (- int p)" .
  have "2 powi (- int p) \<le> (1::rat)"
    by (simp add: power_int_minus inverse_le_1_iff)
  then have "r * 2 powi (- int p) \<le> r * 1"
    using pos by (intro mult_left_mono) simp_all
  moreover have "r - r * 2 powi (- int p) \<le> ?v" "?v \<le> r + r * 2 powi (- int p)"
    using err by (simp_all add: abs_le_iff)
  ultimately have "0 \<le> ?v" "?v \<le> r * (1 + 2 powi (- int p))"
    by (simp_all add: algebra_simps)
  then have "\<bar>?v\<bar> < 2 powi (emax + 1)" using hi by simp
  then have "round_to (p, emin, emax) r = Some ?v"
    using pos by (simp add: round_to_def m Let_def del: max.absorb1 max.absorb2 max.absorb3 max.absorb4)
  with err show ?thesis by simp
qed

definition unit_roundoff :: rat where
  "unit_roundoff = 1 / 16777216"

lemma round_to_rel:
  assumes f: "fmt = binary32 \<or> fmt = binary64"
    and r: "r = 0 \<or> 2 powi (-126) \<le> r \<and> r \<le> 2 powi 127"
  shows "\<exists>v. round_to fmt r = Some v \<and>
             r * (1 - unit_roundoff) \<le> v \<and> v \<le> r * (1 + unit_roundoff)"
proof (cases "r = 0")
  case True
  then show ?thesis using f by (auto simp add: round_to_def binary32_def binary64_def)
next
  case False
  then have lo: "2 powi (-126) \<le> r" and hi: "r \<le> 2 powi 127" using r by simp_all
  have pos: "0 < r" using lo zero_less_power_int [of "2::rat" "-126"] by linarith
  obtain p emin emax where fm: "fmt = (p, emin, emax)" by (cases fmt)
  have c: "24 \<le> p" "emin \<le> -126" "127 \<le> emax"
    using f fm by (auto simp add: binary32_def binary64_def)
  have "(2::rat) powi emin \<le> 2 powi (-126)" using c(2) by (intro power_int_increasing) simp_all
  then have l: "2 powi emin \<le> r" using lo by linarith
  have pu: "(2::rat) powi (- int p) \<le> unit_roundoff"
  proof -
    have "(2::rat) powi (- int p) \<le> 2 powi (-24)"
      using c(1) by (intro power_int_increasing) simp_all
    then show ?thesis by (simp add: unit_roundoff_def)
  qed
  have "r * (1 + 2 powi (- int p)) \<le> r * (1 + unit_roundoff)"
    using pu pos by (intro mult_left_mono) simp_all
  also have "\<dots> \<le> 2 powi 127 * (1 + unit_roundoff)"
    using hi by (intro mult_right_mono) (simp_all add: unit_roundoff_def)
  also have "\<dots> < 2 powi 128" by (simp add: unit_roundoff_def)
  also have "\<dots> \<le> 2 powi (emax + 1)" using c(3) by (intro power_int_increasing) simp_all
  finally have h: "r * (1 + 2 powi (- int p)) < 2 powi (emax + 1)" .
  from round_to_error [OF l h] obtain v where
    v: "round_to (p, emin, emax) r = Some v" "\<bar>v - r\<bar> \<le> r * 2 powi (- int p)"
    by blast
  have "r * 2 powi (- int p) \<le> r * unit_roundoff"
    using pu pos by (intro mult_left_mono) simp_all
  then have "\<bar>v - r\<bar> \<le> r * unit_roundoff" using v(2) by linarith
  then have "r * (1 - unit_roundoff) \<le> v" "v \<le> r * (1 + unit_roundoff)"
    by (simp_all add: abs_le_iff algebra_simps)
  then show ?thesis using v(1) fm by simp
qed

text \<open>
  One component there and back. The four roundings of \<open>GridToWorld\<close> and the rounding of
  the division each change the value by at most one part in \<open>2^24\<close>, which for a
  coordinate below \<open>2^21\<close> leaves the quotient strictly between the coordinate and its
  successor.
\<close>

lemma component_round_trip:
  assumes f: "fmt = binary32 \<or> fmt = binary64"
    and x: "0 \<le> X" "X < 2097152"
    and cs: "2 powi (-100) \<le> cs" "cs \<le> 2 powi 100"
  shows "\<exists>w. GridToWorld_component cs X = Some w \<and> WorldToGrid_component fmt cs w = Some X"
proof -
  let ?u = unit_roundoff
  let ?x = "of_int X :: rat"
  have u: "0 \<le> 1 - ?u" "0 \<le> 1 + ?u" by (simp_all add: unit_roundoff_def)
  have x': "0 \<le> ?x" "?x \<le> 2097151" using x by simp_all
  have csp: "0 < cs" using cs(1) zero_less_power_int [of "2::rat" "-100"] by linarith
  have b32: "binary32 = binary32 \<or> binary32 = binary64" by simp
  txt \<open>the conversion of \<open>X\<close>\<close>
  have "?x = 0 \<or> 2 powi (-126) \<le> ?x \<and> ?x \<le> 2 powi 127"
  proof (cases "X = 0")
    case True then show ?thesis by simp
  next
    case False
    then have "1 \<le> ?x" using x(1) by simp
    moreover have "(2::rat) powi (-126) \<le> 1" by simp
    moreover have "(2097151::rat) \<le> 2 powi 127" by simp
    ultimately show ?thesis using x'(2) by linarith
  qed
  from round_to_rel [OF b32 this] obtain xf where
    xf: "round_to binary32 ?x = Some xf" "?x * (1 - ?u) \<le> xf" "xf \<le> ?x * (1 + ?u)"
    by blast
  have xf0: "0 \<le> xf" using xf(2) x'(1) u(1) by (meson mult_nonneg_nonneg order_trans)
  txt \<open>the product\<close>
  have "xf * cs = 0 \<or> 2 powi (-126) \<le> xf * cs \<and> xf * cs \<le> 2 powi 127"
  proof (cases "X = 0")
    case True then show ?thesis using xf(2,3) by simp
  next
    case False
    then have "1 \<le> ?x" using x(1) by simp
    then have "1 * (1 - ?u) \<le> ?x * (1 - ?u)" using u(1) by (rule mult_right_mono)
    then have a: "1 / 2 \<le> xf" using xf(2) by (simp add: unit_roundoff_def)
    have "?x * (1 + ?u) \<le> 2097151 * (1 + ?u)" using x'(2) u(2) by (rule mult_right_mono)
    then have b: "xf \<le> 2 powi 21" using xf(3) by (simp add: unit_roundoff_def)
    have "2 powi (-126) \<le> 1 / 2 * (2::rat) powi (-100)" by simp
    also have "\<dots> \<le> xf * cs" using a cs(1) by (intro mult_mono) simp_all
    finally have lo: "2 powi (-126) \<le> xf * cs" .
    have "xf * cs \<le> 2 powi 21 * 2 powi 100" using b cs(2) xf0 csp by (intro mult_mono) simp_all
    also have "\<dots> \<le> 2 powi 127" by simp
    finally show ?thesis using lo by simp
  qed
  from round_to_rel [OF b32 this] obtain a where
    a: "round_to binary32 (xf * cs) = Some a" "xf * cs * (1 - ?u) \<le> a" "a \<le> xf * cs * (1 + ?u)"
    by blast
  have alo: "cs * (?x * (1 - ?u) * (1 - ?u)) \<le> a"
  proof -
    have "?x * (1 - ?u) * cs \<le> xf * cs" using xf(2) csp by (intro mult_right_mono) simp_all
    then have "?x * (1 - ?u) * cs * (1 - ?u) \<le> xf * cs * (1 - ?u)"
      using u(1) by (rule mult_right_mono)
    then show ?thesis using a(2) by (simp add: mult_ac)
  qed
  have ahi: "a \<le> cs * (?x * (1 + ?u) * (1 + ?u))"
  proof -
    have "xf * cs \<le> ?x * (1 + ?u) * cs" using xf(3) csp by (intro mult_right_mono) simp_all
    then have "xf * cs * (1 + ?u) \<le> ?x * (1 + ?u) * cs * (1 + ?u)"
      using u(2) by (rule mult_right_mono)
    then show ?thesis using a(3) by (simp add: mult_ac)
  qed
  txt \<open>half a cell\<close>
  have "cs * (1 / 2) = 0 \<or> 2 powi (-126) \<le> cs * (1 / 2) \<and> cs * (1 / 2) \<le> 2 powi 127"
    using cs by simp
  from round_to_rel [OF b32 this] obtain h where
    h: "round_to binary32 (cs * (1 / 2)) = Some h" "cs * (1 / 2) * (1 - ?u) \<le> h"
       "h \<le> cs * (1 / 2) * (1 + ?u)"
    by blast
  have hlo: "cs * ((1 - ?u) / 2) \<le> h" using h(2) by (simp add: mult_ac)
  have hhi: "h \<le> cs * ((1 + ?u) / 2)" using h(3) by (simp add: mult_ac)
  txt \<open>the sum\<close>
  let ?lo3 = "?x * (1 - ?u) * (1 - ?u) + (1 - ?u) / 2"
  let ?hi3 = "?x * (1 + ?u) * (1 + ?u) + (1 + ?u) / 2"
  have "cs * (?x * (1 - ?u) * (1 - ?u)) + cs * ((1 - ?u) / 2) \<le> a + h"
    using alo hlo by (rule add_mono)
  then have s3lo: "cs * ?lo3 \<le> a + h" by (simp only: distrib_left)
  have "a + h \<le> cs * (?x * (1 + ?u) * (1 + ?u)) + cs * ((1 + ?u) / 2)"
    using ahi hhi by (rule add_mono)
  then have s3hi: "a + h \<le> cs * ?hi3" by (simp only: distrib_left)
  note s3 = s3lo s3hi
  have lo3: "1 / 4 \<le> ?lo3"
  proof -
    have "0 \<le> ?x * (1 - ?u) * (1 - ?u)" using x'(1) u(1) by simp
    then show ?thesis by (simp add: unit_roundoff_def)
  qed
  have hi3: "?hi3 \<le> 2 powi 21"
  proof -
    have "?x * ((1 + ?u) * (1 + ?u)) \<le> 2097151 * ((1 + ?u) * (1 + ?u))"
      using x'(2) u(2) by (intro mult_right_mono) simp_all
    then show ?thesis by (simp add: unit_roundoff_def mult.assoc)
  qed
  have "a + h = 0 \<or> 2 powi (-126) \<le> a + h \<and> a + h \<le> 2 powi 127"
  proof -
    have "2 powi (-126) \<le> (2::rat) powi (-100) * (1 / 4)" by simp
    also have "\<dots> \<le> cs * ?lo3" using cs(1) lo3 by (intro mult_mono) simp_all
    finally have l: "2 powi (-126) \<le> a + h" using s3(1) by linarith
    have "cs * ?hi3 \<le> cs * 2 powi 21"
      using hi3 csp by (intro mult_left_mono) simp_all
    also have "\<dots> \<le> 2 powi 100 * 2 powi 21"
      using cs(2) by (intro mult_right_mono) simp_all
    also have "\<dots> \<le> 2 powi 127" by simp
    finally show ?thesis using l s3(2) by linarith
  qed
  from round_to_rel [OF b32 this] obtain s where
    s: "round_to binary32 (a + h) = Some s" "(a + h) * (1 - ?u) \<le> s" "s \<le> (a + h) * (1 + ?u)"
    by blast
  have w: "GridToWorld_component cs X = Some s"
    using xf(1) a(1) h(1) s(1) by (simp add: GridToWorld_component_def)
  txt \<open>the quotient\<close>
  let ?lo4 = "?lo3 * (1 - ?u)"
  let ?hi4 = "?hi3 * (1 + ?u)"
  have q4: "?lo4 \<le> s / cs" "s / cs \<le> ?hi4"
  proof -
    have "cs * ?lo3 * (1 - ?u) \<le> (a + h) * (1 - ?u)" using s3(1) u(1) by (rule mult_right_mono)
    then have "cs * ?lo4 \<le> s" using s(2) by (simp add: mult.assoc)
    then show "?lo4 \<le> s / cs" using csp by (simp add: pos_le_divide_eq mult.commute)
    have "(a + h) * (1 + ?u) \<le> cs * ?hi3 * (1 + ?u)" using s3(2) u(2) by (rule mult_right_mono)
    then have "s \<le> cs * ?hi4" using s(3) by (simp add: mult.assoc)
    then show "s / cs \<le> ?hi4" using csp by (simp add: pos_divide_le_eq mult.commute)
  qed
  have lo4: "1 / 8 \<le> ?lo4"
  proof -
    have "1 / 4 * (1 - ?u) \<le> ?lo4" using lo3 u(1) by (rule mult_right_mono)
    then show ?thesis by (simp add: unit_roundoff_def)
  qed
  have hi4: "?hi4 \<le> 2 powi 22"
  proof -
    have "?hi4 \<le> 2 powi 21 * (1 + ?u)" using hi3 u(2) by (rule mult_right_mono)
    then show ?thesis by (simp add: unit_roundoff_def)
  qed
  have "s / cs = 0 \<or> 2 powi (-126) \<le> s / cs \<and> s / cs \<le> 2 powi 127"
  proof -
    have "(2::rat) powi (-126) \<le> 1 / 8" by simp
    moreover have "(2::rat) powi 22 \<le> 2 powi 127" by simp
    ultimately show ?thesis using q4 lo4 hi4 by linarith
  qed
  from round_to_rel [OF f this] obtain d where
    d: "round_to fmt (s / cs) = Some d" "s / cs * (1 - ?u) \<le> d" "d \<le> s / cs * (1 + ?u)"
    by blast
  have "?lo4 * (1 - ?u) \<le> s / cs * (1 - ?u)" using q4(1) u(1) by (rule mult_right_mono)
  then have dlo: "?lo4 * (1 - ?u) \<le> d" using d(2) by linarith
  have "s / cs * (1 + ?u) \<le> ?hi4 * (1 + ?u)" using q4(2) u(2) by (rule mult_right_mono)
  then have dhi: "d \<le> ?hi4 * (1 + ?u)" using d(3) by linarith
  have "?x \<le> ?lo4 * (1 - ?u)"
    using x' by (simp add: unit_roundoff_def algebra_simps)
  then have 1: "?x \<le> d" using dlo by linarith
  have "?hi4 * (1 + ?u) < ?x + 1"
    using x' by (simp add: unit_roundoff_def algebra_simps)
  then have 2: "d < ?x + 1" using dhi by linarith
  have "\<lfloor>d\<rfloor> = X" using 1 2 by (intro floor_unique) simp_all
  then have "FloorToInt d = Some X" using x by (simp add: FloorToInt_def)
  then have "WorldToGrid_component fmt cs s = Some X"
    using csp d(1) by (simp add: WorldToGrid_component_def float_div_def)
  with w show ?thesis by blast
qed

text \<open>
  Claim C8, as the code has it. For every cell with both coordinates in \<open>[0, 2^21)\<close> and
  every cell size between \<open>2^-100\<close> and \<open>2^100\<close>, \<open>GridToWorld\<close> returns a position and
  \<open>WorldToGrid\<close> maps that position back to the cell, whichever of the two formats the
  components of \<open>FVector\<close> have.
\<close>

theorem grid_world_round_trip:
  assumes "fmt = binary32 \<or> fmt = binary64"
    and "0 \<le> fst c" "fst c < 2097152" "0 \<le> snd c" "snd c < 2097152"
    and "2 powi (-100) \<le> CellSize pf" "CellSize pf \<le> 2 powi 100"
  shows "\<exists>W. GridToWorld pf c = Some W \<and> WorldToGrid fmt pf W = Some c"
proof -
  from component_round_trip [OF assms(1,2,3,6,7)] obtain wx where
    x: "GridToWorld_component (CellSize pf) (fst c) = Some wx"
       "WorldToGrid_component fmt (CellSize pf) wx = Some (fst c)"
    by blast
  from component_round_trip [OF assms(1,4,5,6,7)] obtain wy where
    y: "GridToWorld_component (CellSize pf) (snd c) = Some wy"
       "WorldToGrid_component fmt (CellSize pf) wy = Some (snd c)"
    by blast
  have "GridToWorld pf c = Some (wx, wy, 0)"
    by (simp add: GridToWorld_def x(1) y(1))
  moreover have "WorldToGrid fmt pf (wx, wy, 0) = Some c"
    by (simp add: WorldToGrid_def x(2) y(2))
  ultimately show ?thesis by blast
qed

theorem grid_world_round_trip_witness:
  "(binary32 = binary32 \<or> binary32 = binary64) \<and>
   0 \<le> fst (1::int, 1::int) \<and> fst (1::int, 1::int) < 2097152 \<and>
   0 \<le> snd (1::int, 1::int) \<and> snd (1::int, 1::int) < 2097152 \<and>
   2 powi (-100) \<le> CellSize (Initialize corner_cells (2, 2) (200::rat)) \<and>
   CellSize (Initialize corner_cells (2, 2) (200::rat)) \<le> 2 powi 100 \<and>
   GridToWorld (Initialize corner_cells (2, 2) 200) (1, 1) = Some (300, 300, 0) \<and>
   WorldToGrid binary32 (Initialize corner_cells (2, 2) 200) (300, 300, 0) = Some (1, 1)"
proof -
  let ?pf = "Initialize corner_cells (2, 2) (200::rat)"
  have f: "binary32 = binary32 \<or> binary32 = binary64" by simp
  have c: "0 \<le> fst (1::int, 1::int)" "fst (1::int, 1::int) < 2097152"
    "0 \<le> snd (1::int, 1::int)" "snd (1::int, 1::int) < 2097152" by simp_all
  have s: "2 powi (-100) \<le> CellSize ?pf" "CellSize ?pf \<le> 2 powi 100"
    by (simp_all add: Initialize_def)
  have g: "GridToWorld ?pf (1, 1) = Some (300, 300, 0)" by code_simp
  from grid_world_round_trip [OF f c s] obtain W where
    "GridToWorld ?pf (1, 1) = Some W" "WorldToGrid binary32 ?pf W = Some (1, 1)" by blast
  then have "WorldToGrid binary32 ?pf (300, 300, 0) = Some (1, 1)" using g by simp
  then show ?thesis using f c s g by simp
qed

text \<open>
  The claim as stated fails for a large coordinate. In a grid that is \<open>16777218\<close> cells
  wide, the cell \<open>(16777217, 0)\<close> is valid; its coordinate \<open>2^24 + 1\<close> is not a \<open>float\<close> and
  is converted to \<open>2^24\<close>, the position returned is that of the cell before it, and
  \<open>WorldToGrid\<close> returns \<open>(16777216, 0)\<close>.
\<close>

definition wide_grid :: "(unit, rat) UMazePathfinder" where
  "wide_grid =
     Initialize
       (replicate 16777218
          \<lparr> GridPosition = (0, 0), WorldPosition = (), bIsFloor = True, bIsOnPath = False,
            InstanceIndex = -1 \<rparr>)
       (16777218, 1) 200"

lemma wide_grid_fields:
  "bIsInitialized wide_grid" "MazeSize wide_grid = (16777218, 1)"
  "CellSize wide_grid = 200"
  by (simp_all add: wide_grid_def Initialize_def int32_def)

lemma wide_components:
  "GridToWorld_component 200 16777217 = Some 3355443200"
  "GridToWorld_component 200 0 = Some 100"
  "WorldToGrid_component binary32 200 3355443200 = Some 16777216"
  "WorldToGrid_component binary64 200 3355443200 = Some 16777216"
  "WorldToGrid_component binary32 200 100 = Some 0"
  "WorldToGrid_component binary64 200 100 = Some 0"
  by code_simp+

theorem large_coordinate_counterexample:
  "bIsInitialized wide_grid \<and>
   0 \<le> fst (16777217::int, 0::int) \<and> fst (16777217::int, 0::int) < fst (MazeSize wide_grid) \<and>
   0 \<le> snd (16777217::int, 0::int) \<and> snd (16777217::int, 0::int) < snd (MazeSize wide_grid) \<and>
   0 < CellSize wide_grid \<and>
   GridToWorld wide_grid (16777217, 0) = Some (3355443200, 100, 0) \<and>
   WorldToGrid binary32 wide_grid (3355443200, 100, 0) = Some (16777216, 0) \<and>
   WorldToGrid binary64 wide_grid (3355443200, 100, 0) = Some (16777216, 0) \<and>
   (16777216::int, 0::int) \<noteq> (16777217, 0)"
  by (simp add: wide_grid_fields wide_components GridToWorld_def WorldToGrid_def)

text \<open>
  The bound on the coordinates cannot be raised beyond \<open>2^22\<close>: with the cell size
  \<open>13040873 / 2^25\<close>, a \<open>float\<close>, and components of type \<open>float\<close>, the coordinate
  \<open>4194355\<close> comes back as \<open>4194356\<close>.
\<close>

lemma round_trip_fails_near_bound:
  "GridToWorld_component (13040873 / 33554432) 4194355 = Some (6520517 / 4) \<and>
   WorldToGrid_component binary32 (13040873 / 33554432) (6520517 / 4) = Some 4194356"
  by code_simp

section \<open>Maze generator (UMazeGenerator)\<close>

unbundle bit_operations_syntax

text \<open>
  The enums of MazeTypes.h. \<open>EMazeDirection::None\<close> is \<open>NoDirection\<close> here, and
  \<open>direction_bits\<close> is \<open>static_cast<uint8>\<close> on a direction: its bit flag.
\<close>

datatype EMazeGenerationAlgorithm = RecursiveBacktracker | Prims | Kruskals

datatype EMazeDirection = NoDirection | East | North | South | West

fun direction_bits :: "EMazeDirection \<Rightarrow> 8 word" where
  "direction_bits NoDirection = 0"
| "direction_bits East = 1"
| "direction_bits North = 2"
| "direction_bits South = 4"
| "direction_bits West = 8"

text \<open>
  \<open>FMazeGenerationConfig\<close>. The two \<open>float\<close> members have the uninterpreted type \<open>'f\<close>,
  as in the pathfinder.
\<close>

record 'f FMazeGenerationConfig =
  Seed :: int
  SizeX :: int
  SizeY :: int
  Algorithm :: EMazeGenerationAlgorithm
  CellSize :: 'f
  WallHeight :: 'f

fun GetOppositeDirection :: "EMazeDirection \<Rightarrow> EMazeDirection" where
  "GetOppositeDirection East = West"
| "GetOppositeDirection West = East"
| "GetOppositeDirection North = South"
| "GetOppositeDirection South = North"
| "GetOppositeDirection NoDirection = NoDirection"

fun GetDirectionDeltaX :: "EMazeDirection \<Rightarrow> int" where
  "GetDirectionDeltaX East = 1"
| "GetDirectionDeltaX West = -1"
| "GetDirectionDeltaX _ = 0"

fun GetDirectionDeltaY :: "EMazeDirection \<Rightarrow> int" where
  "GetDirectionDeltaY North = -1"
| "GetDirectionDeltaY South = 1"
| "GetDirectionDeltaY _ = 0"

text \<open>
  \<open>FRandomStream\<close> is an engine class; its source is not part of the repository. It is
  modelled by the sequence of raw draws it still has to deliver; a stream is any such
  sequence, so a statement about every stream covers every seed. \<open>RandRange(Min, Max)\<close>
  returns \<open>Min + RandHelper(Max - Min + 1)\<close>, and \<open>RandHelper(A)\<close> is a number between \<open>0\<close>
  and \<open>A - 1\<close> for positive \<open>A\<close> and \<open>0\<close> otherwise: the next raw draw reduced
  modulo \<open>A\<close>.
\<close>

type_synonym FRandomStream = "nat \<Rightarrow> nat"

definition RandHelper :: "int \<Rightarrow> FRandomStream \<Rightarrow> int \<times> FRandomStream" where
  "RandHelper A Random = ((if A > 0 then int (Random 0) mod A else 0), (\<lambda>n. Random (Suc n)))"

definition RandRange :: "int \<Rightarrow> int \<Rightarrow> FRandomStream \<Rightarrow> int \<times> FRandomStream" where
  "RandRange RangeMin RangeMax Random =
     (let RangeSize = (RangeMax - RangeMin) + 1;
          (r, Random') = RandHelper RangeSize Random
      in (RangeMin + r, Random'))"

text \<open>
  \<open>TArray<TArray<uint8>>\<close>, a list of rows. \<open>cell_at Grid X Y\<close> reads \<open>Grid[Y][X]\<close>,
  \<open>set_cell\<close> assigns it and \<open>or_cell\<close> is \<open>Grid[Y][X] |= v\<close>; \<open>NumX\<close> is \<open>Grid[0].Num()\<close>
  and \<open>NumY\<close> is \<open>Grid.Num()\<close>. The source checks an index against \<open>NumX\<close> and \<open>NumY\<close>
  before it reads a neighbour. An index out of range stops the engine at its range check;
  the model has no value for such a read and leaves the grid unchanged at such a write, and
  the theorems below say for which sizes every index is in range. \<open>SetNum\<close> and
  \<open>SetNumZeroed\<close> are given non-negative counts in all of them.
\<close>

type_synonym DirectionsGrid = "8 word list list"

definition NumX :: "DirectionsGrid \<Rightarrow> int" where
  "NumX Grid = int (length (Grid ! 0))"

definition NumY :: "DirectionsGrid \<Rightarrow> int" where
  "NumY Grid = int (length Grid)"

definition cell_at :: "DirectionsGrid \<Rightarrow> int \<Rightarrow> int \<Rightarrow> 8 word" where
  "cell_at Grid X Y = Grid ! nat Y ! nat X"

definition set_cell :: "DirectionsGrid \<Rightarrow> int \<Rightarrow> int \<Rightarrow> 8 word \<Rightarrow> DirectionsGrid" where
  "set_cell Grid X Y v = Grid[nat Y := (Grid ! nat Y)[nat X := v]]"

definition or_cell :: "DirectionsGrid \<Rightarrow> int \<Rightarrow> int \<Rightarrow> 8 word \<Rightarrow> DirectionsGrid" where
  "or_cell Grid X Y v = set_cell Grid X Y (cell_at Grid X Y OR v)"

definition CreateZeroedGrid :: "FIntPoint \<Rightarrow> DirectionsGrid" where
  "CreateZeroedGrid Size = replicate (nat (snd Size)) (replicate (nat (fst Size)) 0)"

text \<open>
  \<open>ShuffleArray\<close>: the \<open>for\<close> loop over \<open>i\<close>, with the array and the stream as loop state.
\<close>

definition Swap :: "'a list \<Rightarrow> int \<Rightarrow> int \<Rightarrow> 'a list" where
  "Swap Array i j = Array[nat i := Array ! nat j, nat j := Array ! nat i]"

function ShuffleArray_from :: "int \<Rightarrow> 'a list \<Rightarrow> FRandomStream \<Rightarrow> 'a list \<times> FRandomStream" where
  "ShuffleArray_from i Array Random =
     (let LastIndex = int (length Array) - 1
      in if i \<le> LastIndex
         then let (SwapIndex, Random') = RandRange i LastIndex Random;
                  Array' = (if i \<noteq> SwapIndex then Swap Array i SwapIndex else Array)
              in ShuffleArray_from (i + 1) Array' Random'
         else (Array, Random))"
  by pat_completeness auto
termination
  by (relation "measure (\<lambda>(i, Array, Random). nat (int (length Array) - i))")
     (auto simp add: Swap_def)

declare ShuffleArray_from.simps [simp del]

definition ShuffleArray :: "'a list \<Rightarrow> FRandomStream \<Rightarrow> 'a list \<times> FRandomStream" where
  "ShuffleArray Array Random = ShuffleArray_from 0 Array Random"

subsection \<open>Recursive backtracker\<close>

text \<open>
  \<open>CarvePassagesFrom\<close> shuffles the four directions and runs the \<open>for\<close> loop over them;
  \<open>carve_directions\<close> is that loop, with the directions still to try as its first
  argument. Inside the loop the recursive call \<open>CarvePassagesFrom(NextX, NextY, ...)\<close>
  appears with its body in place: the shuffle, then the loop for the new room. The value
  \<open>None\<close> stands for a recursion that does not return.
\<close>

partial_function (option) carve_directions ::
  "EMazeDirection list \<Rightarrow> int \<Rightarrow> int \<Rightarrow> DirectionsGrid \<Rightarrow> FRandomStream
     \<Rightarrow> (DirectionsGrid \<times> FRandomStream) option" where
  "carve_directions Directions X Y Grid Random =
     (case Directions of
        [] \<Rightarrow> Some (Grid, Random)
      | Dir # rest \<Rightarrow>
          let NextX = X + GetDirectionDeltaX Dir;
              NextY = Y + GetDirectionDeltaY Dir;
              bInBounds = (NextX \<ge> 0 \<and> NextX < NumX Grid \<and> NextY \<ge> 0 \<and> NextY < NumY Grid)
          in if bInBounds \<and> cell_at Grid NextX NextY = 0
             then
               let Grid1 = or_cell (or_cell Grid X Y (direction_bits Dir)) NextX NextY
                             (direction_bits (GetOppositeDirection Dir));
                   (Directions', Random1) = ShuffleArray [East, West, North, South] Random
               in Option.bind (carve_directions Directions' NextX NextY Grid1 Random1)
                    (\<lambda>(Grid2, Random2). carve_directions rest X Y Grid2 Random2)
             else carve_directions rest X Y Grid Random)"

definition CarvePassagesFrom ::
  "int \<Rightarrow> int \<Rightarrow> DirectionsGrid \<Rightarrow> FRandomStream \<Rightarrow> (DirectionsGrid \<times> FRandomStream) option" where
  "CarvePassagesFrom X Y Grid Random =
     (let (Directions, Random') = ShuffleArray [East, West, North, South] Random
      in carve_directions Directions X Y Grid Random')"

definition GenerateBacktracker ::
  "FIntPoint \<Rightarrow> FRandomStream \<Rightarrow> (DirectionsGrid \<times> FRandomStream) option" where
  "GenerateBacktracker Size Random = CarvePassagesFrom 0 0 (CreateZeroedGrid Size) Random"


subsection \<open>Prim's algorithm\<close>

text \<open>
  The member \<open>PrimFrontier\<close> is emptied at the start of \<open>GeneratePrims\<close>; the helpers take
  the grid and the frontier array and return both. A \<open>TPair<int32, int32>\<close> holds \<open>X\<close> as
  \<open>Key\<close> and \<open>Y\<close> as \<open>Value\<close>. \<open>EPrimCellState::Frontier\<close> is \<open>64\<close> and
  \<open>EPrimCellState::In\<close> is \<open>128\<close>. \<open>prim_loop\<close> is the \<open>while (PrimFrontier.Num() > 0)\<close>
  loop.
\<close>

type_synonym PrimFrontierArray = "(int \<times> int) list"

definition PrimAddToFrontier ::
  "int \<Rightarrow> int \<Rightarrow> DirectionsGrid \<times> PrimFrontierArray \<Rightarrow> DirectionsGrid \<times> PrimFrontierArray" where
  "PrimAddToFrontier X Y st =
     (case st of (Grid, PrimFrontier) \<Rightarrow>
        let bInBounds = (X \<ge> 0 \<and> X < NumX Grid \<and> Y \<ge> 0 \<and> Y < NumY Grid)
        in if bInBounds \<and> cell_at Grid X Y = 0
           then (or_cell Grid X Y 64, PrimFrontier @ [(X, Y)])
           else (Grid, PrimFrontier))"

definition PrimExpandFrontierFrom ::
  "int \<Rightarrow> int \<Rightarrow> DirectionsGrid \<times> PrimFrontierArray \<Rightarrow> DirectionsGrid \<times> PrimFrontierArray" where
  "PrimExpandFrontierFrom X Y st =
     (case st of (Grid, PrimFrontier) \<Rightarrow>
        PrimAddToFrontier X (Y + 1)
          (PrimAddToFrontier X (Y - 1)
            (PrimAddToFrontier (X + 1) Y
              (PrimAddToFrontier (X - 1) Y (or_cell Grid X Y 128, PrimFrontier)))))"

definition PrimGetInNeighbors :: "int \<Rightarrow> int \<Rightarrow> DirectionsGrid \<Rightarrow> (int \<times> int) list" where
  "PrimGetInNeighbors X Y Grid =
     (let InFlag = 128
      in (if X > 0 \<and> cell_at Grid (X - 1) Y AND InFlag \<noteq> 0 then [(X - 1, Y)] else []) @
         (if X < NumX Grid - 1 \<and> cell_at Grid (X + 1) Y AND InFlag \<noteq> 0 then [(X + 1, Y)] else []) @
         (if Y > 0 \<and> cell_at Grid X (Y - 1) AND InFlag \<noteq> 0 then [(X, Y - 1)] else []) @
         (if Y < NumY Grid - 1 \<and> cell_at Grid X (Y + 1) AND InFlag \<noteq> 0 then [(X, Y + 1)] else []))"

definition GetDirectionBetween :: "int \<times> int \<Rightarrow> int \<times> int \<Rightarrow> EMazeDirection" where
  "GetDirectionBetween From To =
     (if fst To > fst From then East
      else if fst To < fst From then West
      else if snd To > snd From then South
      else if snd To < snd From then North
      else NoDirection)"

definition RemoveAt :: "'a list \<Rightarrow> int \<Rightarrow> 'a list" where
  "RemoveAt Array Index = take (nat Index) Array @ drop (Suc (nat Index)) Array"

partial_function (option) prim_loop ::
  "DirectionsGrid \<Rightarrow> PrimFrontierArray \<Rightarrow> FRandomStream \<Rightarrow> (DirectionsGrid \<times> FRandomStream) option" where
  "prim_loop Grid PrimFrontier Random =
     (if int (length PrimFrontier) > 0
      then
        let (Index, Random1) = RandRange 0 (int (length PrimFrontier) - 1) Random;
            Current = PrimFrontier ! nat Index;
            PrimFrontier1 = RemoveAt PrimFrontier Index;
            InNeighbors = PrimGetInNeighbors (fst Current) (snd Current) Grid;
            (Grid1, Random2) =
              (if int (length InNeighbors) > 0
               then
                 let (k, Random') = RandRange 0 (int (length InNeighbors) - 1) Random1;
                     Neighbor = InNeighbors ! nat k;
                     Dir = GetDirectionBetween Current Neighbor
                 in (or_cell (or_cell Grid (fst Current) (snd Current) (direction_bits Dir))
                       (fst Neighbor) (snd Neighbor) (direction_bits (GetOppositeDirection Dir)),
                     Random')
               else (Grid, Random1));
            (Grid2, PrimFrontier2) =
              PrimExpandFrontierFrom (fst Current) (snd Current) (Grid1, PrimFrontier1)
        in prim_loop Grid2 PrimFrontier2 Random2
      else Some (Grid, Random))"

definition GeneratePrims ::
  "FIntPoint \<Rightarrow> FRandomStream \<Rightarrow> (DirectionsGrid \<times> FRandomStream) option" where
  "GeneratePrims Size Random =
     (let Grid = CreateZeroedGrid Size;
          (StartX, Random1) = RandRange 0 (fst Size - 1) Random;
          (StartY, Random2) = RandRange 0 (snd Size - 1) Random1;
          (Grid1, PrimFrontier) = PrimExpandFrontierFrom StartX StartY (Grid, [])
      in prim_loop Grid1 PrimFrontier Random2)"

subsection \<open>Kruskal's algorithm\<close>

text \<open>
  The \<open>FKruskalSet\<close> objects live on the heap, one per room, and \<open>Sets[Y][X]\<close> owns the
  object of room \<open>(X, Y)\<close>. An object is identified with its room, and the heap is the map
  from an object to what its \<open>Parent\<close> pointer holds (\<open>None\<close> for \<open>nullptr\<close>).
  \<open>GetRoot\<close> follows the pointers; on a cyclic heap it does not return.
\<close>

type_synonym KruskalSets = "(int \<times> int) \<rightharpoonup> (int \<times> int)"

partial_function (option) GetRoot :: "KruskalSets \<Rightarrow> int \<times> int \<Rightarrow> (int \<times> int) option" where
  "GetRoot Parent s = (case Parent s of Some p \<Rightarrow> GetRoot Parent p | None \<Rightarrow> Some s)"

definition IsConnectedTo :: "KruskalSets \<Rightarrow> int \<times> int \<Rightarrow> int \<times> int \<Rightarrow> bool option" where
  "IsConnectedTo Parent this Other =
     Option.bind (GetRoot Parent this) (\<lambda>r1.
     Option.bind (GetRoot Parent Other) (\<lambda>r2. Some (r1 = r2)))"

definition ConnectTo :: "KruskalSets \<Rightarrow> int \<times> int \<Rightarrow> int \<times> int \<Rightarrow> KruskalSets option" where
  "ConnectTo Parent this Other =
     Option.bind (GetRoot Parent Other) (\<lambda>r. Some (Parent(r \<mapsto> this)))"

type_synonym FKruskalEdge = "int \<times> int \<times> EMazeDirection"

definition kruskal_edges :: "FIntPoint \<Rightarrow> FKruskalEdge list" where
  "kruskal_edges Size =
     concat (map (\<lambda>Y.
       concat (map (\<lambda>X.
         (if X > 0 then [(X, Y, West)] else []) @
         (if Y > 0 then [(X, Y, North)] else []))
       [0..fst Size - 1]))
     [0..snd Size - 1])"

fun process_edges ::
  "FKruskalEdge list \<Rightarrow> DirectionsGrid \<Rightarrow> KruskalSets \<Rightarrow> DirectionsGrid option" where
  "process_edges [] Grid Sets = Some Grid"
| "process_edges ((X, Y, Dir) # rest) Grid Sets =
     (let NextX = X + GetDirectionDeltaX Dir;
          NextY = Y + GetDirectionDeltaY Dir
      in case IsConnectedTo Sets (X, Y) (NextX, NextY) of
           None \<Rightarrow> None
         | Some True \<Rightarrow> process_edges rest Grid Sets
         | Some False \<Rightarrow>
             (case ConnectTo Sets (X, Y) (NextX, NextY) of
                None \<Rightarrow> None
              | Some Sets' \<Rightarrow>
                  process_edges rest
                    (or_cell (or_cell Grid X Y (direction_bits Dir)) NextX NextY
                       (direction_bits (GetOppositeDirection Dir)))
                    Sets'))"

definition GenerateKruskals ::
  "FIntPoint \<Rightarrow> FRandomStream \<Rightarrow> (DirectionsGrid \<times> FRandomStream) option" where
  "GenerateKruskals Size Random =
     (let Grid = CreateZeroedGrid Size;
          Sets = Map.empty;
          Edges = kruskal_edges Size;
          (Edges', Random') = ShuffleArray Edges Random
      in map_option (\<lambda>Grid'. (Grid', Random')) (process_edges Edges' Grid Sets))"

subsection \<open>Conversion to the floor/wall grid and to cells\<close>

text \<open>
  \<open>floor_room\<close> is the body of the two nested loops of \<open>DirectionsToFloorWallGrid\<close> for
  room \<open>(X, Y)\<close>; the loops are folds over the room coordinates. In the result \<open>1\<close> is
  floor and \<open>0\<close> is wall.
\<close>

definition floor_room ::
  "DirectionsGrid \<Rightarrow> FIntPoint \<Rightarrow> int \<Rightarrow> DirectionsGrid \<Rightarrow> int \<Rightarrow> DirectionsGrid" where
  "floor_room DirGrid FinalSize Y Grid X =
     (let FinalX = X * 2;
          FinalY = Y * 2
      in if FinalX \<ge> fst FinalSize \<or> FinalY \<ge> snd FinalSize then Grid
         else
           let Grid0 = set_cell Grid FinalX FinalY 1;
               Directions = cell_at DirGrid X Y;
               Grid1 = (if Directions AND 1 \<noteq> 0 \<and> FinalX + 1 < fst FinalSize
                        then set_cell Grid0 (FinalX + 1) FinalY 1 else Grid0);
               Grid2 = (if Directions AND 2 \<noteq> 0 \<and> FinalY - 1 \<ge> 0
                        then set_cell Grid1 FinalX (FinalY - 1) 1 else Grid1);
               Grid3 = (if Directions AND 4 \<noteq> 0 \<and> FinalY + 1 < snd FinalSize
                        then set_cell Grid2 FinalX (FinalY + 1) 1 else Grid2);
               Grid4 = (if Directions AND 8 \<noteq> 0 \<and> FinalX - 1 \<ge> 0
                        then set_cell Grid3 (FinalX - 1) FinalY 1 else Grid3)
           in Grid4)"

definition DirectionsToFloorWallGrid :: "DirectionsGrid \<Rightarrow> FIntPoint \<Rightarrow> DirectionsGrid" where
  "DirectionsToFloorWallGrid DirGrid FinalSize =
     (let Grid = CreateZeroedGrid FinalSize;
          DirSizeY = int (length DirGrid);
          DirSizeX = (if DirSizeY > 0 then int (length (DirGrid ! 0)) else 0)
      in foldl (\<lambda>Grid Y. foldl (floor_room DirGrid FinalSize Y) Grid [0..DirSizeX - 1])
           Grid [0..DirSizeY - 1])"

text \<open>
  \<open>GenerateMaze\<close>. The stream made from the seed and the world position of a cell centre
  (a \<open>float\<close> computation) are parameters. \<open>(Size + 1) / 2\<close> is C++ integer division,
  which truncates. The members \<open>CachedGrid\<close> and \<open>CachedSize\<close> are written and not read
  again; the function returns the cells.
\<close>

definition GenerateMaze ::
  "(int \<Rightarrow> FRandomStream) \<Rightarrow> ('f \<Rightarrow> int \<Rightarrow> int \<Rightarrow> 'v) \<Rightarrow> 'f FMazeGenerationConfig
     \<Rightarrow> 'v FMazeCell list option" where
  "GenerateMaze RandomStream CellCenter Config =
     (let Random = RandomStream (Seed Config);
          DirectionsSize = ((SizeX Config + 1) sdiv 2, (SizeY Config + 1) sdiv 2)
      in case (case Algorithm Config of
                 RecursiveBacktracker \<Rightarrow> GenerateBacktracker DirectionsSize Random
               | Prims \<Rightarrow> GeneratePrims DirectionsSize Random
               | Kruskals \<Rightarrow> GenerateKruskals DirectionsSize Random) of
           None \<Rightarrow> None
         | Some (DirGrid, Random') \<Rightarrow>
             let FinalSize = (SizeX Config, SizeY Config);
                 CachedGrid = DirectionsToFloorWallGrid DirGrid FinalSize
             in Some (concat (map (\<lambda>Y. map (\<lambda>X.
                        \<lparr> GridPosition = (X, Y),
                          WorldPosition = CellCenter (CellSize Config) X Y,
                          bIsFloor = (cell_at CachedGrid X Y = 1),
                          bIsOnPath = False,
                          InstanceIndex = -1 \<rparr>)
                      [0..fst FinalSize - 1]) [0..snd FinalSize - 1])))"

subsection \<open>Degenerate sizes\<close>

declare carve_directions.simps [code] prim_loop.simps [code] GetRoot.simps [code]

lemma ShuffleArray_from_length:
  "length (fst (ShuffleArray_from i Array Random)) = length Array"
proof (induction i Array Random rule: ShuffleArray_from.induct)
  case (1 i Array Random)
  show ?case
  proof (cases "i \<le> int (length Array) - 1")
    case True
    obtain k R' where k: "RandRange i (int (length Array) - 1) Random = (k, R')"
      by (cases "RandRange i (int (length Array) - 1) Random")
    show ?thesis
      using 1 [OF refl True k [symmetric] refl] True k
      by (subst ShuffleArray_from.simps) (simp add: Let_def Swap_def split: if_splits)
  next
    case False
    then show ?thesis by (subst ShuffleArray_from.simps) simp
  qed
qed

lemma carve_directions_no_columns:
  "NumX Grid = 0 \<Longrightarrow> carve_directions Directions 0 Y Grid Random = Some (Grid, Random)"
proof (induction Directions)
  case Nil
  then show ?case by (subst carve_directions.simps) simp
next
  case (Cons Dir rest)
  show ?case
    using Cons by (subst carve_directions.simps) (auto simp add: Let_def)
qed

lemma GenerateBacktracker_no_columns:
  "1 \<le> h \<Longrightarrow> \<exists>Random'. GenerateBacktracker (0, h) Random =
      Some (replicate (nat h) [], Random')"
proof -
  assume h: "1 \<le> h"
  have "NumX (replicate (nat h) []) = 0" using h by (simp add: NumX_def)
  then show ?thesis
    by (simp add: GenerateBacktracker_def CarvePassagesFrom_def CreateZeroedGrid_def
          split_beta carve_directions_no_columns)
qed

lemma kruskal_edges_no_columns: "kruskal_edges (0, h) = []"
  by (simp add: kruskal_edges_def)

lemma ShuffleArray_Nil: "ShuffleArray [] Random = ([], Random)"
  unfolding ShuffleArray_def by (subst ShuffleArray_from.simps) simp

lemma GenerateKruskals_no_columns:
  "GenerateKruskals (0, h) Random = Some (replicate (nat h) [], Random)"
  by (simp add: GenerateKruskals_def kruskal_edges_no_columns ShuffleArray_Nil CreateZeroedGrid_def)

lemma one_sdiv_two: "(1::int) sdiv 2 = 0"
  by (simp add: signed_divide_int_def)

text \<open>
  Claim C4, as the code has it. \<open>GenerateMaze\<close> does not look at the sign of the
  dimensions and has no error result. For a configuration of width \<open>0\<close> and positive
  height, with the recursive backtracker or Kruskal's algorithm, the directions grid has
  rows without rooms, no room is carved, and the call returns the empty cell array. (With
  Prim's algorithm the source writes the start room into such a row, which is out of range.)
\<close>

theorem GenerateMaze_zero_width:
  assumes "SizeX Config = 0" "1 \<le> SizeY Config" "Algorithm Config \<noteq> Prims"
  shows "GenerateMaze RandomStream CellCenter Config = Some []"
proof -
  let ?h = "(SizeY Config + 1) sdiv 2"
  have h: "1 \<le> ?h" using assms(2) by (simp add: signed_divide_int_def sgn_if)
  show ?thesis
  proof (cases "Algorithm Config")
    case RecursiveBacktracker
    from GenerateBacktracker_no_columns [OF h] obtain R' where
      "GenerateBacktracker (0, ?h) (RandomStream (Seed Config)) = Some (replicate (nat ?h) [], R')"
      by blast
    then show ?thesis
      using assms(1) RecursiveBacktracker
      by (simp add: GenerateMaze_def one_sdiv_two Let_def)
  next
    case Prims
    then show ?thesis using assms(3) by simp
  next
    case Kruskals
    then show ?thesis
      using assms(1)
      by (simp add: GenerateMaze_def one_sdiv_two Let_def GenerateKruskals_no_columns)
  qed
qed

definition zero_width_config :: "unit FMazeGenerationConfig" where
  "zero_width_config =
     \<lparr> Seed = 1, SizeX = 0, SizeY = 5, Algorithm = RecursiveBacktracker,
       CellSize = (), WallHeight = () \<rparr>"

theorem GenerateMaze_zero_width_witness:
  "SizeX zero_width_config = 0 \<and> 1 \<le> SizeY zero_width_config \<and>
   Algorithm zero_width_config \<noteq> Prims \<and>
   GenerateMaze (\<lambda>seed n. n) (\<lambda>_ _ _. ()) zero_width_config = Some []"
proof -
  have a: "SizeX zero_width_config = 0" "1 \<le> SizeY zero_width_config"
    "Algorithm zero_width_config \<noteq> Prims"
    by (simp_all add: zero_width_config_def)
  from GenerateMaze_zero_width [OF a] a show ?thesis by simp
qed

text \<open>
  The claim as stated fails: this configuration has a non-positive width, and the call
  returns normally, with an empty cell array.
\<close>

theorem zero_width_no_error_counterexample:
  "SizeX zero_width_config \<le> 0 \<and>
   GenerateMaze (\<lambda>seed n. n) (\<lambda>_ _ _. ()) zero_width_config = Some []"
  by (simp add: zero_width_config_def GenerateMaze_def GenerateBacktracker_def
        CarvePassagesFrom_def CreateZeroedGrid_def signed_divide_int_def split_beta
        carve_directions_no_columns NumX_def DirectionsToFloorWallGrid_def)

section \<open>The generated maze is a spanning tree\<close>

subsection \<open>Rooms, passages and the room graph\<close>

text \<open>
  The directions grid as a graph. A room is a cell of the directions grid; a grid is
  rectangular for a size when it has that many rows and columns. A room has a direction
  when the bit of the direction is set in its cell. An open passage is a symmetric pair
  of direction bits between two adjacent rooms of the grid; \<open>open_passages\<close> lists every
  one once, from its west or north room, and \<open>room_count\<close> is the number of rooms.
\<close>

definition room_in :: "FIntPoint \<Rightarrow> FIntPoint \<Rightarrow> bool" where
  "room_in Size p \<longleftrightarrow> 0 \<le> fst p \<and> fst p < fst Size \<and> 0 \<le> snd p \<and> snd p < snd Size"

definition rect_grid :: "FIntPoint \<Rightarrow> DirectionsGrid \<Rightarrow> bool" where
  "rect_grid Size Grid \<longleftrightarrow>
     length Grid = nat (snd Size) \<and> (\<forall>row\<in>set Grid. length row = nat (fst Size))"

definition room_step :: "EMazeDirection \<Rightarrow> FIntPoint \<Rightarrow> FIntPoint" where
  "room_step Dir p = (fst p + GetDirectionDeltaX Dir, snd p + GetDirectionDeltaY Dir)"

definition has_dir :: "DirectionsGrid \<Rightarrow> FIntPoint \<Rightarrow> EMazeDirection \<Rightarrow> bool" where
  "has_dir Grid p Dir \<longleftrightarrow> cell_at Grid (fst p) (snd p) AND direction_bits Dir \<noteq> 0"

definition open_passage :: "DirectionsGrid \<Rightarrow> FIntPoint \<Rightarrow> EMazeDirection \<Rightarrow> bool" where
  "open_passage Grid p Dir \<longleftrightarrow>
     room_in (NumX Grid, NumY Grid) p \<and> room_in (NumX Grid, NumY Grid) (room_step Dir p) \<and>
     has_dir Grid p Dir \<and> has_dir Grid (room_step Dir p) (GetOppositeDirection Dir)"

definition open_passages :: "DirectionsGrid \<Rightarrow> (FIntPoint \<times> EMazeDirection) list" where
  "open_passages Grid =
     filter (\<lambda>(p, Dir). open_passage Grid p Dir)
       (List.product (List.product [0..NumX Grid - 1] [0..NumY Grid - 1]) [East, South])"

definition room_count :: "DirectionsGrid \<Rightarrow> nat" where
  "room_count Grid = nat (NumX Grid * NumY Grid)"

text \<open>Bit flags and cell updates.\<close>

lemma or_and_nonzero:
  "(x OR b) AND c \<noteq> 0 \<longleftrightarrow> x AND c \<noteq> 0 \<or> b AND c \<noteq> (0 :: 8 word)"
  by (simp add: bit.conj_disj_distrib2 or_eq_0_iff)

lemma direction_bits_and:
  "d \<noteq> NoDirection \<Longrightarrow> e \<noteq> NoDirection \<Longrightarrow>
     direction_bits d AND direction_bits e \<noteq> 0 \<longleftrightarrow> d = e"
  by (cases d; cases e) simp_all

lemma state_bits_and:
  "(64 :: 8 word) AND direction_bits e = 0" "(128 :: 8 word) AND direction_bits e = 0"
  by (cases e; simp)+

lemma rect_grid_Num:
  "rect_grid Size Grid \<Longrightarrow> 1 \<le> fst Size \<Longrightarrow> 1 \<le> snd Size \<Longrightarrow>
     NumX Grid = fst Size \<and> NumY Grid = snd Size"
  by (cases Grid) (auto simp add: rect_grid_def NumX_def NumY_def)

lemma rect_grid_CreateZeroedGrid: "rect_grid Size (CreateZeroedGrid Size)"
  by (simp add: rect_grid_def CreateZeroedGrid_def)

lemma cell_at_CreateZeroedGrid:
  "room_in Size p \<Longrightarrow> cell_at (CreateZeroedGrid Size) (fst p) (snd p) = 0"
  by (simp add: room_in_def cell_at_def CreateZeroedGrid_def)

lemma rect_grid_set_cell: "rect_grid Size Grid \<Longrightarrow> rect_grid Size (set_cell Grid X Y v)"
proof (cases "nat Y < length Grid")
  case True
  assume r: "rect_grid Size Grid"
  then have "length ((Grid ! nat Y)[nat X := v]) = nat (fst Size)"
    using True by (simp add: rect_grid_def)
  moreover have "set (Grid[nat Y := (Grid ! nat Y)[nat X := v]])
                   \<subseteq> insert ((Grid ! nat Y)[nat X := v]) (set Grid)"
    by (rule set_update_subset_insert)
  ultimately show ?thesis
    using r unfolding rect_grid_def set_cell_def by auto
next
  case False
  assume "rect_grid Size Grid"
  moreover have "Grid[nat Y := (Grid ! nat Y)[nat X := v]] = Grid"
    using False by (intro list_update_beyond) simp
  ultimately show ?thesis by (simp add: set_cell_def)
qed

lemma cell_at_set_cell:
  assumes "rect_grid Size Grid" "room_in Size (X, Y)" "room_in Size (X', Y')"
  shows "cell_at (set_cell Grid X Y v) X' Y' = (if X' = X \<and> Y' = Y then v else cell_at Grid X' Y')"
proof -
  have l: "nat Y < length Grid" "nat Y' < length Grid"
    using assms by (auto simp add: rect_grid_def room_in_def)
  then have r: "nat X < length (Grid ! nat Y)" "nat X' < length (Grid ! nat Y')"
    using assms by (auto simp add: rect_grid_def room_in_def)
  have e: "nat X' = nat X \<longleftrightarrow> X' = X" "nat Y' = nat Y \<longleftrightarrow> Y' = Y"
    using assms by (auto simp add: room_in_def)
  show ?thesis
    using l r e by (auto simp add: cell_at_def set_cell_def nth_list_update)
qed

lemma rect_grid_or_cell: "rect_grid Size Grid \<Longrightarrow> rect_grid Size (or_cell Grid X Y v)"
  by (simp add: or_cell_def rect_grid_set_cell)

lemma cell_at_or_cell:
  assumes "rect_grid Size Grid" "room_in Size (X, Y)" "room_in Size (X', Y')"
  shows "cell_at (or_cell Grid X Y v) X' Y' =
           (if X' = X \<and> Y' = Y then cell_at Grid X Y OR v else cell_at Grid X' Y')"
  unfolding or_cell_def using cell_at_set_cell [OF assms] by simp


text \<open>
  \<open>linked\<close> is the relation between the two rooms of an open passage, and \<open>passage_set\<close>
  the set that \<open>open_passages\<close> lists. \<open>tree_inv\<close> says that the passages form a tree on
  the set \<open>T\<close> of rooms: direction bits occur only between rooms of \<open>T\<close> and in symmetric
  pairs, every room of \<open>T\<close> is joined to the root, and there is one passage less than
  rooms in \<open>T\<close>.
\<close>

definition linked :: "FIntPoint \<Rightarrow> DirectionsGrid \<Rightarrow> (FIntPoint \<times> FIntPoint) set" where
  "linked Size Grid =
     {(p, q). room_in Size p \<and> room_in Size q \<and>
        (\<exists>Dir. Dir \<noteq> NoDirection \<and> q = room_step Dir p \<and> has_dir Grid p Dir \<and>
           has_dir Grid q (GetOppositeDirection Dir))}"

definition passage_set :: "FIntPoint \<Rightarrow> DirectionsGrid \<Rightarrow> (FIntPoint \<times> EMazeDirection) set" where
  "passage_set Size Grid =
     {(p, Dir). (Dir = East \<or> Dir = South) \<and> room_in Size p \<and> room_in Size (room_step Dir p) \<and>
        has_dir Grid p Dir \<and> has_dir Grid (room_step Dir p) (GetOppositeDirection Dir)}"

definition tree_inv :: "FIntPoint \<Rightarrow> FIntPoint \<Rightarrow> DirectionsGrid \<Rightarrow> FIntPoint set \<Rightarrow> bool" where
  "tree_inv Size rt Grid T \<longleftrightarrow>
     rect_grid Size Grid \<and> rt \<in> T \<and> T \<subseteq> {p. room_in Size p} \<and>
     (\<forall>p Dir. room_in Size p \<and> Dir \<noteq> NoDirection \<and> has_dir Grid p Dir \<longrightarrow>
        p \<in> T \<and> room_step Dir p \<in> T \<and>
        has_dir Grid (room_step Dir p) (GetOppositeDirection Dir)) \<and>
     (\<forall>p\<in>T. (rt, p) \<in> (linked Size Grid)\<^sup>*) \<and>
     card (passage_set Size Grid) + 1 = card T"

lemma finite_rooms: "finite {p. room_in Size p}"
proof (rule finite_subset)
  show "{p. room_in Size p} \<subseteq> {0..<fst Size} \<times> {0..<snd Size}"
    by (auto simp add: room_in_def)
qed simp

lemma card_rooms: "0 \<le> fst Size \<Longrightarrow> 0 \<le> snd Size \<Longrightarrow>
  card {p. room_in Size p} = nat (fst Size * snd Size)"
proof -
  assume a: "0 \<le> fst Size" "0 \<le> snd Size"
  have "{p. room_in Size p} = {0..<fst Size} \<times> {0..<snd Size}"
    by (auto simp add: room_in_def)
  then show ?thesis using a by (simp add: card_cartesian_product nat_mult_distrib)
qed

lemma finite_passage_set: "finite (passage_set Size Grid)"
proof (rule finite_subset)
  show "passage_set Size Grid \<subseteq> {p. room_in Size p} \<times> {East, South}"
    by (auto simp add: passage_set_def)
qed (simp add: finite_rooms)

lemma opposite_opposite: "GetOppositeDirection (GetOppositeDirection Dir) = Dir"
  by (cases Dir) simp_all

lemma opposite_NoDirection: "GetOppositeDirection Dir = NoDirection \<longleftrightarrow> Dir = NoDirection"
  by (cases Dir) simp_all

lemma room_step_opposite: "room_step (GetOppositeDirection Dir) (room_step Dir p) = p"
  by (cases Dir) (simp_all add: room_step_def)

lemma room_step_neq: "Dir \<noteq> NoDirection \<Longrightarrow> room_step Dir p \<noteq> p"
  by (cases Dir; cases p) (simp_all add: room_step_def)

lemma opposite_East_South:
  "Dir \<noteq> NoDirection \<Longrightarrow>
     (Dir = East \<or> Dir = South) \<noteq> (GetOppositeDirection Dir = East \<or> GetOppositeDirection Dir = South)"
  by (cases Dir) simp_all

lemma linked_iff:
  "(p, q) \<in> linked Size Grid \<longleftrightarrow>
     room_in Size p \<and> room_in Size q \<and>
     (\<exists>Dir. Dir \<noteq> NoDirection \<and> q = room_step Dir p \<and> has_dir Grid p Dir \<and>
        has_dir Grid q (GetOppositeDirection Dir))"
  by (simp add: linked_def)

lemma passage_set_iff:
  "(p, Dir) \<in> passage_set Size Grid \<longleftrightarrow>
     (Dir = East \<or> Dir = South) \<and> room_in Size p \<and> room_in Size (room_step Dir p) \<and>
     has_dir Grid p Dir \<and> has_dir Grid (room_step Dir p) (GetOppositeDirection Dir)"
  by (simp add: passage_set_def)

lemma linked_mono:
  assumes "\<And>r e. room_in Size r \<Longrightarrow> e \<noteq> NoDirection \<Longrightarrow> has_dir Grid r e \<Longrightarrow> has_dir Grid' r e"
  shows "linked Size Grid \<subseteq> linked Size Grid'"
proof (rule subrelI)
  fix a b assume "(a, b) \<in> linked Size Grid"
  then obtain D where D: "room_in Size a" "room_in Size b" "D \<noteq> NoDirection"
    "b = room_step D a" "has_dir Grid a D" "has_dir Grid b (GetOppositeDirection D)"
    unfolding linked_iff by blast
  have "has_dir Grid' a D" using assms [OF D(1,3,5)] .
  moreover have "has_dir Grid' b (GetOppositeDirection D)"
    using assms [OF D(2) _ D(6)] D(3) by (simp add: opposite_NoDirection)
  ultimately show "(a, b) \<in> linked Size Grid'"
    unfolding linked_iff using D by blast
qed

lemma passage_set_mono:
  assumes "\<And>r e. room_in Size r \<Longrightarrow> e \<noteq> NoDirection \<Longrightarrow> has_dir Grid r e \<Longrightarrow> has_dir Grid' r e"
  shows "passage_set Size Grid \<subseteq> passage_set Size Grid'"
proof (rule subrelI)
  fix a D assume "(a, D) \<in> passage_set Size Grid"
  then have D: "D = East \<or> D = South" "room_in Size a" "room_in Size (room_step D a)"
    "has_dir Grid a D" "has_dir Grid (room_step D a) (GetOppositeDirection D)"
    unfolding passage_set_iff by blast+
  have n: "D \<noteq> NoDirection" using D(1) by auto
  have "has_dir Grid' a D" using assms [OF D(2) n D(4)] .
  moreover have "has_dir Grid' (room_step D a) (GetOppositeDirection D)"
    using assms [OF D(3) _ D(5)] n by (simp add: opposite_NoDirection)
  ultimately show "(a, D) \<in> passage_set Size Grid'"
    unfolding passage_set_iff using D by blast
qed

lemma tree_inv_carve:
  assumes inv: "tree_inv Size rt Grid T"
    and p: "p \<in> T" and q: "room_step Dir p \<notin> T" "room_in Size (room_step Dir p)"
    and d: "Dir \<noteq> NoDirection"
    and r': "rect_grid Size Grid'"
    and h': "\<forall>r e. room_in Size r \<and> e \<noteq> NoDirection \<longrightarrow>
               (has_dir Grid' r e \<longleftrightarrow>
                  has_dir Grid r e \<or> (r = p \<and> e = Dir) \<or>
                  (r = room_step Dir p \<and> e = GetOppositeDirection Dir))"
  shows "tree_inv Size rt Grid' (insert (room_step Dir p) T)"
proof -
  let ?q = "room_step Dir p" and ?o = "GetOppositeDirection Dir"
  have pin: "room_in Size p" using inv p by (auto simp add: tree_inv_def)
  have od: "?o \<noteq> NoDirection" using d by (simp add: opposite_NoDirection)
  have cl: "\<And>r e. room_in Size r \<Longrightarrow> e \<noteq> NoDirection \<Longrightarrow> has_dir Grid r e \<Longrightarrow>
               r \<in> T \<and> room_step e r \<in> T \<and> has_dir Grid (room_step e r) (GetOppositeDirection e)"
    using inv unfolding tree_inv_def by blast
  have Tin: "\<And>r. r \<in> T \<Longrightarrow> room_in Size r" using inv by (auto simp add: tree_inv_def)
  have hp: "has_dir Grid' p Dir" using h' pin d by blast
  have hq: "has_dir Grid' ?q ?o" using h' q(2) od by blast
  have nq: "\<And>e. e \<noteq> NoDirection \<Longrightarrow> \<not> has_dir Grid ?q e" using cl q by blast
  have np: "\<not> has_dir Grid p Dir" using cl [OF pin d] q(1) by blast
  have mono: "\<And>r e. room_in Size r \<Longrightarrow> e \<noteq> NoDirection \<Longrightarrow> has_dir Grid r e \<Longrightarrow> has_dir Grid' r e"
    using h' by blast
  have c4: "\<forall>r e. room_in Size r \<and> e \<noteq> NoDirection \<and> has_dir Grid' r e \<longrightarrow>
              r \<in> insert ?q T \<and> room_step e r \<in> insert ?q T \<and>
              has_dir Grid' (room_step e r) (GetOppositeDirection e)"
  proof (intro allI impI)
    fix r e assume a: "room_in Size r \<and> e \<noteq> NoDirection \<and> has_dir Grid' r e"
    then consider (old) "has_dir Grid r e" | (p) "r = p" "e = Dir" | (q) "r = ?q" "e = ?o"
      using h' by blast
    then show "r \<in> insert ?q T \<and> room_step e r \<in> insert ?q T \<and>
               has_dir Grid' (room_step e r) (GetOppositeDirection e)"
    proof cases
      case old
      from cl [OF _ _ old] a have 1: "r \<in> T" "room_step e r \<in> T"
        "has_dir Grid (room_step e r) (GetOppositeDirection e)" by blast+
      have "has_dir Grid' (room_step e r) (GetOppositeDirection e)"
        using mono [OF Tin [OF 1(2)] _ 1(3)] a by (simp add: opposite_NoDirection)
      then show ?thesis using 1 by simp
    next
      case p
      then show ?thesis using \<open>p \<in> T\<close> hq by simp
    next
      case q
      then show ?thesis using \<open>p \<in> T\<close> hp by (simp add: room_step_opposite opposite_opposite)
    qed
  qed
  have lm: "linked Size Grid \<subseteq> linked Size Grid'"
    by (rule linked_mono) (rule mono)
  have lpq: "(p, ?q) \<in> linked Size Grid'"
    unfolding linked_iff using pin q(2) d hp hq by blast
  have c5: "\<forall>r\<in>insert ?q T. (rt, r) \<in> (linked Size Grid')\<^sup>*"
  proof
    fix r assume r: "r \<in> insert ?q T"
    have old: "\<And>t. t \<in> T \<Longrightarrow> (rt, t) \<in> (linked Size Grid')\<^sup>*"
      using inv rtrancl_mono [OF lm] unfolding tree_inv_def by blast
    show "(rt, r) \<in> (linked Size Grid')\<^sup>*"
    proof (cases "r = ?q")
      case True
      then show ?thesis using old [OF p] lpq by (simp add: rtrancl_into_rtrancl)
    next
      case False
      then show ?thesis using r old by simp
    qed
  qed
  define x where "x = (if Dir = East \<or> Dir = South then (p, Dir) else (?q, ?o))"
  have ps: "passage_set Size Grid' = insert x (passage_set Size Grid)"
  proof (intro set_eqI iffI)
    fix y assume y: "y \<in> passage_set Size Grid'"
    obtain r e where re: "y = (r, e)" by (cases y)
    have e: "e = East \<or> e = South" "room_in Size r" "room_in Size (room_step e r)"
      "has_dir Grid' r e" "has_dir Grid' (room_step e r) (GetOppositeDirection e)"
      using y re by (simp_all add: passage_set_iff)
    have en: "e \<noteq> NoDirection" using e(1) by auto
    consider (old) "has_dir Grid r e" | (p) "r = p" "e = Dir" | (q) "r = ?q" "e = ?o"
      using h' e(2,4) en by blast
    then show "y \<in> insert x (passage_set Size Grid)"
    proof cases
      case old
      then have "has_dir Grid (room_step e r) (GetOppositeDirection e)"
        using cl [OF e(2) en] by blast
      then show ?thesis using old e re by (simp add: passage_set_iff)
    next
      case p
      then show ?thesis using e(1) re by (simp add: x_def)
    next
      case q
      then have "\<not> (Dir = East \<or> Dir = South)" using e(1) opposite_East_South [OF d] by auto
      then show ?thesis using q re by (simp add: x_def)
    qed
  next
    fix y assume "y \<in> insert x (passage_set Size Grid)"
    then consider (x) "y = x" | (old) "y \<in> passage_set Size Grid" by blast
    then show "y \<in> passage_set Size Grid'"
    proof cases
      case x
      show ?thesis
      proof (cases "Dir = East \<or> Dir = South")
        case True
        then show ?thesis using x pin q(2) hp hq by (simp add: x_def passage_set_iff)
      next
        case False
        then have "?o = East \<or> ?o = South" using opposite_East_South [OF d] by auto
        then show ?thesis
          using x False pin q(2) hp hq
          by (simp add: x_def passage_set_iff room_step_opposite opposite_opposite)
      qed
    next
      case old
      then show ?thesis
        using passage_set_mono [of Size Grid Grid', OF mono] by blast
    qed
  qed
  have xn: "x \<notin> passage_set Size Grid"
    using np nq [OF od] by (simp add: x_def passage_set_iff)
  have c6: "card (passage_set Size Grid') + 1 = card (insert ?q T)"
  proof -
    have "T \<subseteq> {p. room_in Size p}" using inv unfolding tree_inv_def by blast
    then have "finite T" by (rule finite_subset) (rule finite_rooms)
    then have "card (insert ?q T) = card T + 1" using q(1) by simp
    moreover have "card (passage_set Size Grid') = card (passage_set Size Grid) + 1"
      unfolding ps using xn finite_passage_set by simp
    moreover have "card (passage_set Size Grid) + 1 = card T"
      using inv by (simp add: tree_inv_def)
    ultimately show ?thesis by simp
  qed
  have c1: "rt \<in> insert ?q T" "insert ?q T \<subseteq> {p. room_in Size p}"
    using inv q(2) by (auto simp add: tree_inv_def)
  show ?thesis
    unfolding tree_inv_def using r' c1 c4 c5 c6 by blast
qed

lemma tree_inv_same_dirs:
  assumes inv: "tree_inv Size rt Grid T"
    and r': "rect_grid Size Grid'"
    and h': "\<forall>r e. room_in Size r \<and> e \<noteq> NoDirection \<longrightarrow> (has_dir Grid' r e \<longleftrightarrow> has_dir Grid r e)"
  shows "tree_inv Size rt Grid' T"
proof -
  have Tin: "\<And>r. r \<in> T \<Longrightarrow> room_in Size r" using inv by (auto simp add: tree_inv_def)
  have 1: "linked Size Grid' = linked Size Grid"
    using linked_mono [of Size Grid Grid'] linked_mono [of Size Grid' Grid] h' by blast
  have 2: "passage_set Size Grid' = passage_set Size Grid"
    using passage_set_mono [of Size Grid Grid'] passage_set_mono [of Size Grid' Grid] h'
    by blast
  have 3: "\<forall>p Dir. room_in Size p \<and> Dir \<noteq> NoDirection \<and> has_dir Grid' p Dir \<longrightarrow>
        p \<in> T \<and> room_step Dir p \<in> T \<and>
        has_dir Grid' (room_step Dir p) (GetOppositeDirection Dir)"
  proof (intro allI impI)
    fix p Dir assume a: "room_in Size p \<and> Dir \<noteq> NoDirection \<and> has_dir Grid' p Dir"
    then have "has_dir Grid p Dir" using h' by blast
    then have b: "p \<in> T" "room_step Dir p \<in> T"
      "has_dir Grid (room_step Dir p) (GetOppositeDirection Dir)"
      using inv a unfolding tree_inv_def by blast+
    moreover have "GetOppositeDirection Dir \<noteq> NoDirection"
      using a by (simp add: opposite_NoDirection)
    ultimately have "has_dir Grid' (room_step Dir p) (GetOppositeDirection Dir)"
      using h' Tin [OF b(2)] by blast
    then show "p \<in> T \<and> room_step Dir p \<in> T \<and>
        has_dir Grid' (room_step Dir p) (GetOppositeDirection Dir)" using b by simp
  qed
  show ?thesis
    using inv r' 3 unfolding tree_inv_def 1 2 by blast
qed

lemma rooms_closed_all:
  assumes rt: "rt \<in> S" "room_in Size rt"
    and cl: "\<forall>p\<in>S. \<forall>Dir. Dir \<noteq> NoDirection \<and> room_in Size (room_step Dir p) \<longrightarrow> room_step Dir p \<in> S"
  shows "room_in Size p \<Longrightarrow> p \<in> S"
proof (induction "nat (\<bar>fst p - fst rt\<bar> + \<bar>snd p - snd rt\<bar>)" arbitrary: p)
  case 0
  then have "p = rt" by (cases p; cases rt) auto
  then show ?case using rt by simp
next
  case (Suc n)
  show ?case
  proof -
    consider (e) "fst rt < fst p" | (w) "fst p < fst rt"
      | (s) "fst p = fst rt" "snd rt < snd p" | (n) "fst p = fst rt" "snd p < snd rt"
      using Suc.hyps(2) by (cases p; cases rt) fastforce
    then show ?thesis
    proof cases
      case e
      let ?p' = "(fst p - 1, snd p)"
      have "room_in Size ?p'" using e Suc.prems rt(2) by (auto simp add: room_in_def)
      moreover have "n = nat (\<bar>fst ?p' - fst rt\<bar> + \<bar>snd ?p' - snd rt\<bar>)"
        using e Suc.hyps(2) by simp
      ultimately have "?p' \<in> S" using Suc.hyps(1) by blast
      moreover have "room_step East ?p' = p" by (simp add: room_step_def)
      ultimately show ?thesis using cl Suc.prems by (metis EMazeDirection.distinct(1))
    next
      case w
      let ?p' = "(fst p + 1, snd p)"
      have "room_in Size ?p'" using w Suc.prems rt(2) by (auto simp add: room_in_def)
      moreover have "n = nat (\<bar>fst ?p' - fst rt\<bar> + \<bar>snd ?p' - snd rt\<bar>)"
        using w Suc.hyps(2) by simp
      ultimately have "?p' \<in> S" using Suc.hyps(1) by blast
      moreover have "room_step West ?p' = p" by (simp add: room_step_def)
      ultimately show ?thesis using cl Suc.prems by (metis EMazeDirection.distinct(7))
    next
      case s
      let ?p' = "(fst p, snd p - 1)"
      have "room_in Size ?p'" using s Suc.prems rt(2) by (auto simp add: room_in_def)
      moreover have "n = nat (\<bar>fst ?p' - fst rt\<bar> + \<bar>snd ?p' - snd rt\<bar>)"
        using s Suc.hyps(2) by simp
      ultimately have "?p' \<in> S" using Suc.hyps(1) by blast
      moreover have "room_step South ?p' = p" by (simp add: room_step_def)
      ultimately show ?thesis using cl Suc.prems by (metis EMazeDirection.distinct(5))
    next
      case n
      let ?p' = "(fst p, snd p + 1)"
      have "room_in Size ?p'" using n Suc.prems rt(2) by (auto simp add: room_in_def)
      moreover have "n = nat (\<bar>fst ?p' - fst rt\<bar> + \<bar>snd ?p' - snd rt\<bar>)"
        using n Suc.hyps(2) by simp
      ultimately have "?p' \<in> S" using Suc.hyps(1) by blast
      moreover have "room_step North ?p' = p" by (simp add: room_step_def)
      ultimately show ?thesis using cl Suc.prems by (metis EMazeDirection.distinct(3))
    qed
  qed
qed


subsection \<open>Shuffling and carving\<close>

declare split_paired_All [simp del] split_paired_Ex [simp del]

lemma RandRange_bounds:
  assumes "lo \<le> hi"
  shows "lo \<le> fst (RandRange lo hi Random) \<and> fst (RandRange lo hi Random) \<le> hi"
proof -
  have m: "0 < hi - lo + 1" using assms by simp
  have "fst (RandRange lo hi Random) = lo + int (Random 0) mod (hi - lo + 1)"
    using m by (simp add: RandRange_def RandHelper_def Let_def)
  then show ?thesis
    using pos_mod_sign [OF m, of "int (Random 0)"] pos_mod_bound [OF m, of "int (Random 0)"]
    by linarith
qed

lemma set_Swap:
  "0 \<le> i \<Longrightarrow> 0 \<le> j \<Longrightarrow> i < int (length xs) \<Longrightarrow> j < int (length xs) \<Longrightarrow>
     set (Swap xs i j) = set xs"
  unfolding Swap_def by (rule set_swap) simp_all

lemma ShuffleArray_from_set:
  "0 \<le> i \<Longrightarrow> set (fst (ShuffleArray_from i Array Random)) = set Array"
proof (induction i Array Random rule: ShuffleArray_from.induct)
  case (1 i Array Random)
  show ?case
  proof (cases "i \<le> int (length Array) - 1")
    case True
    obtain k R' where k: "RandRange i (int (length Array) - 1) Random = (k, R')"
      by (cases "RandRange i (int (length Array) - 1) Random")
    have kb: "i \<le> k" "k \<le> int (length Array) - 1"
      using RandRange_bounds [OF True, of Random] k by simp_all
    let ?A = "if i \<noteq> k then Swap Array i k else Array"
    have sA: "set ?A = set Array"
      using set_Swap [of i k Array] "1.prems" kb True by simp
    have "ShuffleArray_from i Array Random = ShuffleArray_from (i + 1) ?A R'"
      using True k by (subst ShuffleArray_from.simps) (simp add: Let_def)
    moreover have "set (fst (ShuffleArray_from (i + 1) ?A R')) = set ?A"
      using 1(1) [OF refl True k [symmetric] refl] "1.prems" by simp
    ultimately show ?thesis using sA by simp
  next
    case False
    then show ?thesis by (subst ShuffleArray_from.simps) simp
  qed
qed

lemma ShuffleArray_set: "set (fst (ShuffleArray Array Random)) = set Array"
  unfolding ShuffleArray_def by (rule ShuffleArray_from_set) simp

lemma ShuffleArray_length: "length (fst (ShuffleArray Array Random)) = length Array"
  unfolding ShuffleArray_def by (rule ShuffleArray_from_length)

text \<open>
  \<open>carved Grid p Dir\<close> is the grid after the two statements that open the passage from
  room \<open>p\<close> in direction \<open>Dir\<close>.
\<close>

definition carved :: "DirectionsGrid \<Rightarrow> FIntPoint \<Rightarrow> EMazeDirection \<Rightarrow> DirectionsGrid" where
  "carved Grid p Dir =
     or_cell (or_cell Grid (fst p) (snd p) (direction_bits Dir))
       (fst (room_step Dir p)) (snd (room_step Dir p))
       (direction_bits (GetOppositeDirection Dir))"

lemma carved_cell:
  assumes "rect_grid Size Grid" "room_in Size p" "room_in Size (room_step Dir p)"
    "Dir \<noteq> NoDirection" "room_in Size r"
  shows "cell_at (carved Grid p Dir) (fst r) (snd r) =
           (if r = p then cell_at Grid (fst p) (snd p) OR direction_bits Dir
            else if r = room_step Dir p
              then cell_at Grid (fst r) (snd r) OR direction_bits (GetOppositeDirection Dir)
            else cell_at Grid (fst r) (snd r))"
proof -
  let ?q = "room_step Dir p"
  let ?G1 = "or_cell Grid (fst p) (snd p) (direction_bits Dir)"
  have ne: "?q \<noteq> p" using assms(4) by (rule room_step_neq)
  have r1: "rect_grid Size ?G1" using assms(1) by (rule rect_grid_or_cell)
  have p': "room_in Size (fst p, snd p)" "room_in Size (fst ?q, snd ?q)" "room_in Size (fst r, snd r)"
    using assms by simp_all
  have eq: "(fst r = fst p \<and> snd r = snd p) = (r = p)" "(fst r = fst ?q \<and> snd r = snd ?q) = (r = ?q)"
    "(fst ?q = fst p \<and> snd ?q = snd p) = (?q = p)"
    by (auto simp add: prod_eq_iff)
  show ?thesis
    unfolding carved_def
    using ne
    by (simp only: cell_at_or_cell [OF r1 p'(2) p'(3)] cell_at_or_cell [OF assms(1) p'(1) p'(3)]
          cell_at_or_cell [OF assms(1) p'(1) p'(2)] eq)
       auto
qed

lemma rect_grid_carved: "rect_grid Size Grid \<Longrightarrow> rect_grid Size (carved Grid p Dir)"
  by (simp add: carved_def rect_grid_or_cell)

lemma carved_has_dir:
  assumes "rect_grid Size Grid" "room_in Size p" "room_in Size (room_step Dir p)"
    "Dir \<noteq> NoDirection" "room_in Size r" "e \<noteq> NoDirection"
  shows "has_dir (carved Grid p Dir) r e \<longleftrightarrow>
           has_dir Grid r e \<or> (r = p \<and> e = Dir) \<or>
           (r = room_step Dir p \<and> e = GetOppositeDirection Dir)"
proof -
  have o: "GetOppositeDirection Dir \<noteq> NoDirection"
    using assms(4) by (simp add: opposite_NoDirection)
  have ne: "room_step Dir p \<noteq> p" using assms(4) by (rule room_step_neq)
  show ?thesis
    unfolding has_dir_def carved_cell [OF assms(1-5)]
    using direction_bits_and [OF assms(4,6)] direction_bits_and [OF o assms(6)] ne
    by (auto simp add: or_and_nonzero)
qed

lemma carved_nonzero:
  assumes "rect_grid Size Grid" "room_in Size p" "room_in Size (room_step Dir p)"
    "Dir \<noteq> NoDirection" "room_in Size r"
  shows "cell_at (carved Grid p Dir) (fst r) (snd r) \<noteq> 0 \<longleftrightarrow>
           cell_at Grid (fst r) (snd r) \<noteq> 0 \<or> r = p \<or> r = room_step Dir p"
proof -
  have "direction_bits Dir \<noteq> 0" "direction_bits (GetOppositeDirection Dir) \<noteq> 0"
    using assms(4) by (cases Dir; simp)+
  then show ?thesis
    unfolding carved_cell [OF assms] by (auto simp add: or_eq_0_iff)
qed


subsection \<open>Recursive backtracker\<close>

text \<open>
  The rooms whose cell is still \<open>0\<close>, and the two invariants of the recursion: the rooms
  reached so far form a tree (they are the rooms with a non-zero cell, and room \<open>(0, 0)\<close>),
  and every reached room outside the set \<open>S\<close> of rooms whose loop is still running has
  no unreached neighbour.
\<close>

definition zeros :: "FIntPoint \<Rightarrow> DirectionsGrid \<Rightarrow> FIntPoint set" where
  "zeros Size Grid = {p. room_in Size p \<and> cell_at Grid (fst p) (snd p) = 0}"

definition closed_rooms :: "FIntPoint \<Rightarrow> DirectionsGrid \<Rightarrow> FIntPoint set \<Rightarrow> bool" where
  "closed_rooms Size Grid S \<longleftrightarrow>
     (\<forall>p Dir. room_in Size p \<and> p \<notin> zeros Size Grid \<and> p \<notin> S \<and> Dir \<noteq> NoDirection \<and>
        room_in Size (room_step Dir p) \<longrightarrow> room_step Dir p \<notin> zeros Size Grid)"

definition dfs_inv :: "FIntPoint \<Rightarrow> DirectionsGrid \<Rightarrow> FIntPoint set \<Rightarrow> bool" where
  "dfs_inv Size Grid T \<longleftrightarrow>
     tree_inv Size (0, 0) Grid T \<and>
     (\<forall>p. room_in Size p \<and> p \<notin> zeros Size Grid \<longrightarrow> p \<in> T) \<and>
     (\<forall>p\<in>T. p \<notin> zeros Size Grid \<or> T = {(0, 0)})"

lemma finite_zeros: "finite (zeros Size Grid)"
  by (rule finite_subset [OF _ finite_rooms [of Size]]) (auto simp add: zeros_def)

lemma zeros_carved:
  assumes "rect_grid Size Grid" "room_in Size p" "room_in Size (room_step Dir p)"
    "Dir \<noteq> NoDirection"
  shows "zeros Size (carved Grid p Dir) = zeros Size Grid - {p, room_step Dir p}"
  unfolding zeros_def using carved_nonzero [OF assms] by blast

lemma dfs_carve:
  assumes inv: "dfs_inv Size Grid T" and p: "p \<in> T"
    and q: "room_step Dir p \<in> zeros Size Grid" and d: "Dir \<noteq> NoDirection"
  shows "dfs_inv Size (carved Grid p Dir) (insert (room_step Dir p) T)"
proof -
  let ?q = "room_step Dir p"
  have t: "tree_inv Size (0, 0) Grid T" using inv by (simp add: dfs_inv_def)
  then have r: "rect_grid Size Grid" and pin: "room_in Size p"
    using p unfolding tree_inv_def by blast+
  have qin: "room_in Size ?q" using q by (simp add: zeros_def)
  have qT: "?q \<notin> T"
  proof
    assume "?q \<in> T"
    then have "T = {(0, 0)}" using inv q unfolding dfs_inv_def by blast
    then have "?q = p" using p \<open>?q \<in> T\<close> by simp
    then show False using room_step_neq [OF d] by simp
  qed
  have z: "zeros Size (carved Grid p Dir) = zeros Size Grid - {p, ?q}"
    by (rule zeros_carved [OF r pin qin d])
  have 1: "tree_inv Size (0, 0) (carved Grid p Dir) (insert ?q T)"
    using tree_inv_carve [OF t p qT qin d rect_grid_carved [OF r]]
      carved_has_dir [OF r pin qin d] by blast
  have 2: "\<forall>x. room_in Size x \<and> x \<notin> zeros Size (carved Grid p Dir) \<longrightarrow> x \<in> insert ?q T"
    unfolding z using inv p unfolding dfs_inv_def by blast
  have 3: "\<forall>x\<in>insert ?q T. x \<notin> zeros Size (carved Grid p Dir) \<or> insert ?q T = {(0, 0)}"
  proof
    fix x assume x: "x \<in> insert ?q T"
    show "x \<notin> zeros Size (carved Grid p Dir) \<or> insert ?q T = {(0, 0)}"
    proof (cases "x = ?q \<or> x = p")
      case True
      then show ?thesis unfolding z by blast
    next
      case False
      then have xT: "x \<in> T" using x by blast
      then have "T \<noteq> {(0, 0)}" using p False by auto
      then have "x \<notin> zeros Size Grid" using inv xT unfolding dfs_inv_def by blast
      then show ?thesis unfolding z by blast
    qed
  qed
  show ?thesis unfolding dfs_inv_def using 1 2 3 by blast
qed

lemma carve_directions_Cons:
  "carve_directions (Dir # rest) X Y G R =
     (if (fst (room_step Dir (X, Y)) \<ge> 0 \<and> fst (room_step Dir (X, Y)) < NumX G \<and>
          snd (room_step Dir (X, Y)) \<ge> 0 \<and> snd (room_step Dir (X, Y)) < NumY G) \<and>
         cell_at G (fst (room_step Dir (X, Y))) (snd (room_step Dir (X, Y))) = 0
      then (case ShuffleArray [East, West, North, South] R of
              (dirs', R1) \<Rightarrow>
                Option.bind
                  (carve_directions dirs' (fst (room_step Dir (X, Y))) (snd (room_step Dir (X, Y)))
                     (carved G (X, Y) Dir) R1)
                  (\<lambda>(G2, R2). carve_directions rest X Y G2 R2))
      else carve_directions rest X Y G R)"
  by (subst carve_directions.simps) (simp add: Let_def room_step_def carved_def)

lemma carve_directions_correct:
  assumes sz: "1 \<le> fst Size" "1 \<le> snd Size"
  shows "dfs_inv Size G T \<Longrightarrow> (X, Y) \<in> T \<Longrightarrow> closed_rooms Size G (insert (X, Y) S) \<Longrightarrow>
         length dirs \<le> 4 \<Longrightarrow> NoDirection \<notin> set dirs \<Longrightarrow>
         \<exists>G' R' T'. carve_directions dirs X Y G R = Some (G', R') \<and> dfs_inv Size G' T' \<and>
           T \<subseteq> T' \<and> closed_rooms Size G' (insert (X, Y) S) \<and>
           zeros Size G' \<subseteq> zeros Size G \<and>
           (\<forall>Dir\<in>set dirs. room_in Size (room_step Dir (X, Y)) \<longrightarrow>
              room_step Dir (X, Y) \<notin> zeros Size G')"
proof (induction "card (zeros Size G) * 5 + length dirs" arbitrary: G T X Y S dirs R
         rule: less_induct)
  case less
  note inv = less.prems(1) and cur = less.prems(2) and cl = less.prems(3)
  have r: "rect_grid Size G" using inv unfolding dfs_inv_def tree_inv_def by blast
  have num: "NumX G = fst Size" "NumY G = snd Size"
    using rect_grid_Num [OF r sz] by simp_all
  show ?case
  proof (cases dirs)
    case Nil
    have "carve_directions [] X Y G R = Some (G, R)"
      by (subst carve_directions.simps) simp
    then show ?thesis using Nil inv cl by auto
  next
    case (Cons Dir rest)
    let ?q = "room_step Dir (X, Y)"
    have d: "Dir \<noteq> NoDirection" using less.prems(5) Cons by auto
    have rest: "length rest \<le> 4" "NoDirection \<notin> set rest"
      using less.prems(4,5) Cons by auto
    have test: "(fst ?q \<ge> 0 \<and> fst ?q < NumX G \<and> snd ?q \<ge> 0 \<and> snd ?q < NumY G) \<and>
                cell_at G (fst ?q) (snd ?q) = 0 \<longleftrightarrow> ?q \<in> zeros Size G"
      unfolding num by (auto simp add: zeros_def room_in_def)
    show ?thesis
    proof (cases "?q \<in> zeros Size G")
      case False
      have eq: "carve_directions dirs X Y G R = carve_directions rest X Y G R"
        unfolding Cons carve_directions_Cons test using False by simp
      have "card (zeros Size G) * 5 + length rest < card (zeros Size G) * 5 + length dirs"
        using Cons by simp
      from less.hyps [OF this inv cur cl rest, of R] obtain G' R' T' where
        res: "carve_directions rest X Y G R = Some (G', R')" "dfs_inv Size G' T'"
          "T \<subseteq> T'" "closed_rooms Size G' (insert (X, Y) S)" "zeros Size G' \<subseteq> zeros Size G"
          "\<forall>Dir\<in>set rest. room_in Size (room_step Dir (X, Y)) \<longrightarrow>
              room_step Dir (X, Y) \<notin> zeros Size G'"
        by blast
      have "room_in Size ?q \<longrightarrow> ?q \<notin> zeros Size G'" using False res(5) by blast
      then have all: "\<forall>Dir\<in>set dirs. room_in Size (room_step Dir (X, Y)) \<longrightarrow>
              room_step Dir (X, Y) \<notin> zeros Size G'"
        using res(6) Cons by simp
      have fin: "carve_directions dirs X Y G R = Some (G', R')" using eq res(1) by simp
      show ?thesis
        using fin res(2,3,4,5) all
        by (intro exI [of _ G'] exI [of _ R'] exI [of _ T'] conjI)
    next
      case True
      let ?G1 = "carved G (X, Y) Dir"
      obtain dirs' R1 where sh: "ShuffleArray [East, West, North, South] R = (dirs', R1)"
        by (cases "ShuffleArray [East, West, North, South] R")
      have sd: "set dirs' = {East, West, North, South}" "length dirs' = 4"
        using ShuffleArray_set [of "[East, West, North, South]" R]
          ShuffleArray_length [of "[East, West, North, South]" R] sh by auto
      have eq: "carve_directions dirs X Y G R =
                  Option.bind (carve_directions dirs' (fst ?q) (snd ?q) ?G1 R1)
                    (\<lambda>(G2, R2). carve_directions rest X Y G2 R2)"
        unfolding Cons carve_directions_Cons test using True sh by simp
      have pin: "room_in Size (X, Y)" using inv cur unfolding dfs_inv_def tree_inv_def by blast
      have qin: "room_in Size ?q" using True by (simp add: zeros_def)
      have inv1: "dfs_inv Size ?G1 (insert ?q T)" by (rule dfs_carve [OF inv cur True d])
      have z1: "zeros Size ?G1 = zeros Size G - {(X, Y), ?q}"
        by (rule zeros_carved [OF r pin qin d])
      have c1: "card (zeros Size ?G1) < card (zeros Size G)"
        unfolding z1 using True finite_zeros [of Size G]
        by (intro psubset_card_mono) auto
      have cl1: "closed_rooms Size ?G1 (insert (fst ?q, snd ?q) (insert (X, Y) S))"
        using cl unfolding closed_rooms_def z1 by auto
      have m1: "card (zeros Size ?G1) * 5 + length dirs' < card (zeros Size G) * 5 + length dirs"
        using c1 sd(2) by simp
      have "(fst ?q, snd ?q) \<in> insert ?q T" by simp
      from less.hyps [OF m1 inv1 this cl1, of R1] sd obtain G2 R2 T2 where
        res2: "carve_directions dirs' (fst ?q) (snd ?q) ?G1 R1 = Some (G2, R2)" "dfs_inv Size G2 T2"
          "insert ?q T \<subseteq> T2" "closed_rooms Size G2 (insert ?q (insert (X, Y) S))"
          "zeros Size G2 \<subseteq> zeros Size ?G1"
          "\<forall>Dir\<in>set dirs'. room_in Size (room_step Dir ?q) \<longrightarrow>
              room_step Dir ?q \<notin> zeros Size G2"
        by auto
      have cl2: "closed_rooms Size G2 (insert (X, Y) S)"
        unfolding closed_rooms_def
      proof (intro allI impI)
        fix p e
        assume a: "room_in Size p \<and> p \<notin> zeros Size G2 \<and> p \<notin> insert (X, Y) S \<and>
                   e \<noteq> NoDirection \<and> room_in Size (room_step e p)"
        show "room_step e p \<notin> zeros Size G2"
        proof (cases "p = ?q")
          case True
          have "e \<in> set dirs'" using a sd(1) by (cases e) auto
          then show ?thesis using res2(6) a True by blast
        next
          case False
          then show ?thesis using res2(4) a unfolding closed_rooms_def by blast
        qed
      qed
      have "card (zeros Size G2) \<le> card (zeros Size ?G1)"
        using res2(5) finite_zeros by (intro card_mono)
      then have m2: "card (zeros Size G2) * 5 + length rest < card (zeros Size G) * 5 + length dirs"
        using c1 rest(1) by simp
      have cur2: "(X, Y) \<in> T2" using cur res2(3) by blast
      from less.hyps [OF m2 res2(2) cur2 cl2 rest, of R2] obtain G' R' T' where
        res: "carve_directions rest X Y G2 R2 = Some (G', R')" "dfs_inv Size G' T'"
          "T2 \<subseteq> T'" "closed_rooms Size G' (insert (X, Y) S)" "zeros Size G' \<subseteq> zeros Size G2"
          "\<forall>Dir\<in>set rest. room_in Size (room_step Dir (X, Y)) \<longrightarrow>
              room_step Dir (X, Y) \<notin> zeros Size G'"
        by blast
      have fin: "carve_directions dirs X Y G R = Some (G', R')"
        unfolding eq using res2(1) res(1) by simp
      have sub: "T \<subseteq> T'" using res2(3) res(3) by blast
      have zs: "zeros Size G' \<subseteq> zeros Size G" using res(5) res2(5) z1 by blast
      have "?q \<notin> zeros Size G'" using res(5) res2(5) z1 by blast
      then have all: "\<forall>Dir\<in>set dirs. room_in Size (room_step Dir (X, Y)) \<longrightarrow>
              room_step Dir (X, Y) \<notin> zeros Size G'"
        using res(6) Cons by simp
      show ?thesis
        using fin res(2) sub res(4) zs all
        by (intro exI [of _ G'] exI [of _ R'] exI [of _ T'] conjI)
    qed
  qed
qed


text \<open>A directions grid is a spanning tree when its passages form a tree on all rooms.\<close>

definition spanning_tree :: "FIntPoint \<Rightarrow> DirectionsGrid \<Rightarrow> bool" where
  "spanning_tree Size Grid \<longleftrightarrow> (\<exists>rt. tree_inv Size rt Grid {p. room_in Size p})"

lemma has_dir_CreateZeroedGrid:
  "room_in Size p \<Longrightarrow> \<not> has_dir (CreateZeroedGrid Size) p e"
  by (simp add: has_dir_def cell_at_CreateZeroedGrid)

lemma tree_inv_initial:
  assumes "room_in Size rt" "rect_grid Size Grid"
    and "\<And>p e. room_in Size p \<Longrightarrow> e \<noteq> NoDirection \<Longrightarrow> \<not> has_dir Grid p e"
  shows "tree_inv Size rt Grid {rt}"
proof -
  have "passage_set Size Grid = {}"
    using assms(3) by (auto simp add: passage_set_def)
  then show ?thesis
    unfolding tree_inv_def using assms by auto
qed

lemma GenerateBacktracker_spanning:
  assumes sz: "1 \<le> fst Size" "1 \<le> snd Size"
  shows "\<exists>G R'. GenerateBacktracker Size R = Some (G, R') \<and> spanning_tree Size G"
proof -
  let ?G0 = "CreateZeroedGrid Size"
  have r0: "room_in Size (0, 0)" using sz by (simp add: room_in_def)
  have z0: "zeros Size ?G0 = {p. room_in Size p}"
    unfolding zeros_def using cell_at_CreateZeroedGrid by blast
  have t0: "tree_inv Size (0, 0) ?G0 {(0, 0)}"
    by (rule tree_inv_initial [OF r0 rect_grid_CreateZeroedGrid]) (rule has_dir_CreateZeroedGrid)
  have inv0: "dfs_inv Size ?G0 {(0, 0)}"
    unfolding dfs_inv_def z0 using t0 by blast
  have cl0: "closed_rooms Size ?G0 (insert (0, 0) {})"
    unfolding closed_rooms_def z0 by blast
  obtain dirs R1 where sh: "ShuffleArray [East, West, North, South] R = (dirs, R1)"
    by (cases "ShuffleArray [East, West, North, South] R")
  have sd: "set dirs = {East, West, North, South}" "length dirs = 4"
    using ShuffleArray_set [of "[East, West, North, South]" R]
      ShuffleArray_length [of "[East, West, North, South]" R] sh by auto
  have "(0, 0) \<in> {(0::int, 0::int)}" by simp
  from carve_directions_correct [OF sz inv0 this cl0, of dirs R1] sd obtain G R' T where
    res: "carve_directions dirs 0 0 ?G0 R1 = Some (G, R')" "dfs_inv Size G T"
      "{(0, 0)} \<subseteq> T" "closed_rooms Size G {(0, 0)}"
      "\<forall>Dir\<in>set dirs. room_in Size (room_step Dir (0, 0)) \<longrightarrow>
          room_step Dir (0, 0) \<notin> zeros Size G"
    by auto
  have gen: "GenerateBacktracker Size R = Some (G, R')"
    using sh res(1) by (simp add: GenerateBacktracker_def CarvePassagesFrom_def)
  have t: "tree_inv Size (0, 0) G T" using res(2) by (simp add: dfs_inv_def)
  have cl: "\<forall>p\<in>T. \<forall>Dir. Dir \<noteq> NoDirection \<and> room_in Size (room_step Dir p) \<longrightarrow>
               room_step Dir p \<in> T"
  proof (intro ballI allI impI)
    fix p Dir assume p: "p \<in> T" and d: "Dir \<noteq> NoDirection \<and> room_in Size (room_step Dir p)"
    have "room_step Dir p \<notin> zeros Size G"
    proof (cases "p = (0, 0)")
      case True
      have "Dir \<in> set dirs" using d sd(1) by (cases Dir) auto
      then show ?thesis using res(5) d True by blast
    next
      case False
      then have "p \<notin> zeros Size G" using res(2) p unfolding dfs_inv_def by blast
      moreover have "room_in Size p" using t p unfolding tree_inv_def by blast
      ultimately show ?thesis using res(4) d False unfolding closed_rooms_def by blast
    qed
    then show "room_step Dir p \<in> T" using res(2) d unfolding dfs_inv_def by blast
  qed
  have "(0, 0) \<in> T" using res(3) by simp
  then have "\<And>p. room_in Size p \<Longrightarrow> p \<in> T"
    using rooms_closed_all [OF _ r0 cl] by blast
  moreover have "T \<subseteq> {p. room_in Size p}" using t unfolding tree_inv_def by blast
  ultimately have "T = {p. room_in Size p}" by blast
  then show ?thesis using gen t unfolding spanning_tree_def by blast
qed

subsection \<open>Prim's algorithm\<close>

text \<open>
  A room is in the maze when the \<open>In\<close> flag is set. The invariant of the loop: the rooms
  in the maze form a tree; the frontier array lists, once each, the rooms that are
  marked and not in the maze, and each of them has a neighbour in the maze; every
  neighbour of a room in the maze is marked. \<open>prim_mid\<close> is the invariant while
  \<open>PrimExpandFrontierFrom\<close> is adding the neighbours of room \<open>c\<close>.
\<close>

definition in_maze :: "DirectionsGrid \<Rightarrow> FIntPoint \<Rightarrow> bool" where
  "in_maze Grid p \<longleftrightarrow> cell_at Grid (fst p) (snd p) AND 128 \<noteq> 0"

definition maze_rooms :: "FIntPoint \<Rightarrow> DirectionsGrid \<Rightarrow> FIntPoint set" where
  "maze_rooms Size Grid = {p. room_in Size p \<and> in_maze Grid p}"

definition frontier_ok :: "FIntPoint \<Rightarrow> DirectionsGrid \<Rightarrow> FIntPoint set \<Rightarrow> FIntPoint list \<Rightarrow> bool" where
  "frontier_ok Size Grid T F \<longleftrightarrow>
     distinct F \<and>
     set F = {p. room_in Size p \<and> p \<notin> zeros Size Grid \<and> p \<notin> T} \<and>
     (\<forall>p\<in>set F. \<exists>Dir. Dir \<noteq> NoDirection \<and> room_step Dir p \<in> T)"

definition prim_inv :: "FIntPoint \<Rightarrow> FIntPoint \<Rightarrow> DirectionsGrid \<Rightarrow> FIntPoint list \<Rightarrow> bool" where
  "prim_inv Size rt Grid F \<longleftrightarrow>
     tree_inv Size rt Grid (maze_rooms Size Grid) \<and>
     frontier_ok Size Grid (maze_rooms Size Grid) F \<and>
     (\<forall>p\<in>maze_rooms Size Grid. \<forall>Dir. Dir \<noteq> NoDirection \<and> room_in Size (room_step Dir p) \<longrightarrow>
        room_step Dir p \<notin> zeros Size Grid)"

definition prim_mid ::
  "FIntPoint \<Rightarrow> FIntPoint \<Rightarrow> DirectionsGrid \<Rightarrow> FIntPoint list \<Rightarrow> FIntPoint
     \<Rightarrow> EMazeDirection set \<Rightarrow> bool" where
  "prim_mid Size rt Grid F c Ds \<longleftrightarrow>
     tree_inv Size rt Grid (maze_rooms Size Grid) \<and>
     frontier_ok Size Grid (maze_rooms Size Grid) F \<and>
     c \<in> maze_rooms Size Grid \<and>
     (\<forall>p\<in>maze_rooms Size Grid. \<forall>Dir. p \<noteq> c \<and> Dir \<noteq> NoDirection \<and>
        room_in Size (room_step Dir p) \<longrightarrow> room_step Dir p \<notin> zeros Size Grid) \<and>
     (\<forall>Dir\<in>Ds. room_in Size (room_step Dir c) \<longrightarrow> room_step Dir c \<notin> zeros Size Grid)"

lemma or_and_zero:
  "(x OR b) AND c = 0 \<longleftrightarrow> x AND c = 0 \<and> b AND c = (0 :: 8 word)"
  by (simp add: bit.conj_disj_distrib2 or_eq_0_iff)

lemma or_state_has_dir:
  assumes "rect_grid Size Grid" "room_in Size p" "room_in Size r" "v = 64 \<or> v = 128"
  shows "has_dir (or_cell Grid (fst p) (snd p) v) r e \<longleftrightarrow> has_dir Grid r e"
proof -
  have p': "room_in Size (fst p, snd p)" "room_in Size (fst r, snd r)" using assms by simp_all
  have eq: "(fst r = fst p \<and> snd r = snd p) = (r = p)" by (auto simp add: prod_eq_iff)
  have "v AND direction_bits e = 0" using assms(4) state_bits_and by auto
  then show ?thesis
    unfolding has_dir_def cell_at_or_cell [OF assms(1) p'] eq
    by (auto simp add: or_and_zero)
qed

lemma or_state_cell:
  assumes "rect_grid Size Grid" "room_in Size p" "room_in Size r"
  shows "cell_at (or_cell Grid (fst p) (snd p) v) (fst r) (snd r) =
           (if r = p then cell_at Grid (fst p) (snd p) OR v else cell_at Grid (fst r) (snd r))"
proof -
  have p': "room_in Size (fst p, snd p)" "room_in Size (fst r, snd r)" using assms by simp_all
  have eq: "(fst r = fst p \<and> snd r = snd p) = (r = p)" by (auto simp add: prod_eq_iff)
  show ?thesis unfolding cell_at_or_cell [OF assms(1) p'] eq by auto
qed

lemma tree_inv_or_state:
  assumes "tree_inv Size rt Grid T" "room_in Size p" "v = 64 \<or> v = 128"
  shows "tree_inv Size rt (or_cell Grid (fst p) (snd p) v) T"
proof -
  have r: "rect_grid Size Grid" using assms(1) unfolding tree_inv_def by blast
  show ?thesis
    using tree_inv_same_dirs [OF assms(1) rect_grid_or_cell [OF r]]
      or_state_has_dir [OF r assms(2) _ assms(3)] by blast
qed

lemma set_RemoveAt:
  assumes "distinct xs" "0 \<le> i" "i < int (length xs)"
  shows "set (RemoveAt xs i) = set xs - {xs ! nat i} \<and> distinct (RemoveAt xs i)"
proof -
  have n: "nat i < length xs" using assms by simp
  have xs: "xs = take (nat i) xs @ (xs ! nat i) # drop (Suc (nat i)) xs"
    using id_take_nth_drop [OF n] .
  have d: "distinct (take (nat i) xs @ (xs ! nat i) # drop (Suc (nat i)) xs)"
    using assms(1) xs by simp
  have "set xs = set (take (nat i) xs) \<union> {xs ! nat i} \<union> set (drop (Suc (nat i)) xs)"
    by (subst xs) auto
  then show ?thesis
    using d unfolding RemoveAt_def by auto
qed

lemma GetDirectionBetween_step:
  "Dir \<noteq> NoDirection \<Longrightarrow> GetDirectionBetween c (room_step Dir c) = Dir"
  by (cases Dir) (simp_all add: GetDirectionBetween_def room_step_def)

lemma PrimGetInNeighbors_iff:
  assumes "NumX Grid = fst Size" "NumY Grid = snd Size" "room_in Size c"
  shows "q \<in> set (PrimGetInNeighbors (fst c) (snd c) Grid) \<longleftrightarrow>
           (\<exists>Dir. Dir \<noteq> NoDirection \<and> q = room_step Dir c \<and> room_in Size q \<and> in_maze Grid q)"
    (is "?L \<longleftrightarrow> ?R")
proof
  assume ?L
  then consider
      (w) "fst c > 0" "in_maze Grid (fst c - 1, snd c)" "q = (fst c - 1, snd c)"
    | (e) "fst c < fst Size - 1" "in_maze Grid (fst c + 1, snd c)" "q = (fst c + 1, snd c)"
    | (n) "snd c > 0" "in_maze Grid (fst c, snd c - 1)" "q = (fst c, snd c - 1)"
    | (s) "snd c < snd Size - 1" "in_maze Grid (fst c, snd c + 1)" "q = (fst c, snd c + 1)"
    unfolding PrimGetInNeighbors_def Let_def assms(1,2) in_maze_def
    by (auto split: if_splits)
  then show ?R
  proof cases
    case w
    then have "q = room_step West c" "room_in Size q"
      using assms(3) by (simp_all add: room_step_def room_in_def)
    then show ?thesis using w(2,3) by (intro exI [of _ West]) simp
  next
    case e
    then have "q = room_step East c" "room_in Size q"
      using assms(3) by (simp_all add: room_step_def room_in_def)
    then show ?thesis using e(2,3) by (intro exI [of _ East]) simp
  next
    case n
    then have "q = room_step North c" "room_in Size q"
      using assms(3) by (simp_all add: room_step_def room_in_def)
    then show ?thesis using n(2,3) by (intro exI [of _ North]) simp
  next
    case s
    then have "q = room_step South c" "room_in Size q"
      using assms(3) by (simp_all add: room_step_def room_in_def)
    then show ?thesis using s(2,3) by (intro exI [of _ South]) simp
  qed
next
  assume ?R
  then obtain Dir where d: "Dir \<noteq> NoDirection" "q = room_step Dir c" "room_in Size q"
    "in_maze Grid q" by blast
  show ?L
    using d assms(3)
    unfolding PrimGetInNeighbors_def Let_def assms(1,2) in_maze_def
    by (cases Dir) (auto simp add: room_step_def room_in_def)
qed


lemma PrimAddToFrontier_eq:
  "PrimAddToFrontier X Y (G, F) =
     (if (X \<ge> 0 \<and> X < NumX G \<and> Y \<ge> 0 \<and> Y < NumY G) \<and> cell_at G X Y = 0
      then (or_cell G X Y 64, F @ [(X, Y)]) else (G, F))"
  by (simp add: PrimAddToFrontier_def Let_def)

lemma PrimAddToFrontier_mid:
  assumes sz: "1 \<le> fst Size" "1 \<le> snd Size"
    and mid: "prim_mid Size rt G F c Ds" and d: "Dir \<noteq> NoDirection"
    and res: "PrimAddToFrontier (fst (room_step Dir c)) (snd (room_step Dir c)) (G, F) = (G', F')"
  shows "prim_mid Size rt G' F' c (insert Dir Ds) \<and> maze_rooms Size G' = maze_rooms Size G"
proof -
  let ?q = "room_step Dir c" and ?T = "maze_rooms Size G"
  have t: "tree_inv Size rt G ?T" and f: "frontier_ok Size G ?T F" and c: "c \<in> ?T"
    and cl: "\<forall>p\<in>?T. \<forall>e. p \<noteq> c \<and> e \<noteq> NoDirection \<and> room_in Size (room_step e p) \<longrightarrow>
               room_step e p \<notin> zeros Size G"
    and ds: "\<forall>e\<in>Ds. room_in Size (room_step e c) \<longrightarrow> room_step e c \<notin> zeros Size G"
    using mid unfolding prim_mid_def by blast+
  have r: "rect_grid Size G" using t unfolding tree_inv_def by blast
  have num: "NumX G = fst Size" "NumY G = snd Size" using rect_grid_Num [OF r sz] by simp_all
  have test: "(fst ?q \<ge> 0 \<and> fst ?q < NumX G \<and> snd ?q \<ge> 0 \<and> snd ?q < NumY G) \<and>
              cell_at G (fst ?q) (snd ?q) = 0 \<longleftrightarrow> ?q \<in> zeros Size G"
    unfolding num by (auto simp add: zeros_def room_in_def)
  show ?thesis
  proof (cases "?q \<in> zeros Size G")
    case False
    then have "G' = G" "F' = F"
      using res unfolding PrimAddToFrontier_eq test by simp_all
    moreover have "\<forall>e\<in>insert Dir Ds. room_in Size (room_step e c) \<longrightarrow>
                     room_step e c \<notin> zeros Size G"
      using ds False by blast
    ultimately show ?thesis
      unfolding prim_mid_def using t f c cl by blast
  next
    case True
    then have G': "G' = or_cell G (fst ?q) (snd ?q) 64" and F': "F' = F @ [?q]"
      using res unfolding PrimAddToFrontier_eq test by simp_all
    have qin: "room_in Size ?q" and q0: "cell_at G (fst ?q) (snd ?q) = 0"
      using True by (simp_all add: zeros_def)
    have cell: "\<And>x. room_in Size x \<Longrightarrow> cell_at G' (fst x) (snd x) =
                  (if x = ?q then 64 else cell_at G (fst x) (snd x))"
      unfolding G' using or_state_cell [OF r qin] q0 by simp
    have mz: "\<And>x. room_in Size x \<Longrightarrow> in_maze G' x = in_maze G x"
      unfolding in_maze_def using cell q0 by simp
    then have T': "maze_rooms Size G' = ?T" unfolding maze_rooms_def by blast
    have z': "zeros Size G' = zeros Size G - {?q}"
    proof (intro set_eqI)
      fix x show "x \<in> zeros Size G' \<longleftrightarrow> x \<in> zeros Size G - {?q}"
        using cell [of x] q0 by (cases "x = ?q") (simp_all add: zeros_def cong: conj_cong)
    qed
    have t': "tree_inv Size rt G' ?T"
      unfolding G' by (rule tree_inv_or_state [OF t qin]) simp
    have qT: "?q \<notin> ?T" using q0 by (simp add: maze_rooms_def in_maze_def)
    have qF: "?q \<notin> set F" using f True unfolding frontier_ok_def by blast
    have "room_step (GetOppositeDirection Dir) ?q \<in> ?T"
      using c by (simp add: room_step_opposite)
    then have qn: "\<exists>e. e \<noteq> NoDirection \<and> room_step e ?q \<in> ?T"
      using d opposite_NoDirection by blast
    have f': "frontier_ok Size G' ?T F'"
      unfolding frontier_ok_def F' z'
      using f qF qin qT qn unfolding frontier_ok_def by auto
    have cl': "\<forall>p\<in>?T. \<forall>e. p \<noteq> c \<and> e \<noteq> NoDirection \<and> room_in Size (room_step e p) \<longrightarrow>
               room_step e p \<notin> zeros Size G'"
      unfolding z' using cl by blast
    have ds': "\<forall>e\<in>insert Dir Ds. room_in Size (room_step e c) \<longrightarrow>
                 room_step e c \<notin> zeros Size G'"
      unfolding z' using ds by blast
    show ?thesis
      unfolding prim_mid_def T' using t' f' c cl' ds' by blast
  qed
qed

lemmas PrimAddToFrontier_mid1 = PrimAddToFrontier_mid [THEN conjunct1]
lemmas PrimAddToFrontier_mid2 = PrimAddToFrontier_mid [THEN conjunct2]

lemma PrimExpandFrontierFrom_inv:
  assumes sz: "1 \<le> fst Size" "1 \<le> snd Size"
    and t: "tree_inv Size rt G (insert c (maze_rooms Size G))"
    and c: "c \<notin> maze_rooms Size G"
    and f: "frontier_ok Size G (insert c (maze_rooms Size G)) F"
    and cl: "\<forall>p\<in>maze_rooms Size G. \<forall>e. e \<noteq> NoDirection \<and> room_in Size (room_step e p) \<longrightarrow>
               room_step e p \<notin> zeros Size G"
    and res: "PrimExpandFrontierFrom (fst c) (snd c) (G, F) = (G', F')"
  shows "prim_inv Size rt G' F' \<and> maze_rooms Size G' = insert c (maze_rooms Size G)"
proof -
  let ?G1 = "or_cell G (fst c) (snd c) 128"
  have r: "rect_grid Size G" and cin: "room_in Size c" using t unfolding tree_inv_def by blast+
  have cell: "\<And>x. room_in Size x \<Longrightarrow> cell_at ?G1 (fst x) (snd x) =
                (if x = c then cell_at G (fst c) (snd c) OR 128 else cell_at G (fst x) (snd x))"
    using or_state_cell [OF r cin] by simp
  have mz: "\<And>x. room_in Size x \<Longrightarrow> in_maze ?G1 x \<longleftrightarrow> x = c \<or> in_maze G x"
    unfolding in_maze_def using cell by (simp add: or_and_zero)
  then have T1: "maze_rooms Size ?G1 = insert c (maze_rooms Size G)"
    unfolding maze_rooms_def using cin by blast
  have z1: "zeros Size ?G1 = zeros Size G - {c}"
  proof (intro set_eqI)
    fix x show "x \<in> zeros Size ?G1 \<longleftrightarrow> x \<in> zeros Size G - {c}"
      using cell [of x] by (cases "x = c") (simp_all add: zeros_def or_eq_0_iff cong: conj_cong)
  qed
  have t1: "tree_inv Size rt ?G1 (maze_rooms Size ?G1)"
    unfolding T1 by (rule tree_inv_or_state [OF t cin]) simp
  have f1: "frontier_ok Size ?G1 (maze_rooms Size ?G1) F"
    unfolding T1 using f unfolding frontier_ok_def z1 by auto
  have cl1: "\<forall>p\<in>maze_rooms Size ?G1. \<forall>e. p \<noteq> c \<and> e \<noteq> NoDirection \<and>
               room_in Size (room_step e p) \<longrightarrow> room_step e p \<notin> zeros Size ?G1"
    unfolding T1 z1 using cl by blast
  have m0: "prim_mid Size rt ?G1 F c {}"
    unfolding prim_mid_def using t1 f1 cl1 T1 by blast
  have st: "(fst c - 1, snd c) = room_step West c" "(fst c + 1, snd c) = room_step East c"
    "(fst c, snd c - 1) = room_step North c" "(fst c, snd c + 1) = room_step South c"
    by (simp_all add: room_step_def)
  obtain Ga Fa where a: "PrimAddToFrontier (fst (room_step West c)) (snd (room_step West c)) (?G1, F) = (Ga, Fa)"
    by (cases "PrimAddToFrontier (fst (room_step West c)) (snd (room_step West c)) (?G1, F)")
  obtain Gb Fb where b: "PrimAddToFrontier (fst (room_step East c)) (snd (room_step East c)) (Ga, Fa) = (Gb, Fb)"
    by (cases "PrimAddToFrontier (fst (room_step East c)) (snd (room_step East c)) (Ga, Fa)")
  obtain Gc Fc where c3: "PrimAddToFrontier (fst (room_step North c)) (snd (room_step North c)) (Gb, Fb) = (Gc, Fc)"
    by (cases "PrimAddToFrontier (fst (room_step North c)) (snd (room_step North c)) (Gb, Fb)")
  obtain Gd Fd where d4: "PrimAddToFrontier (fst (room_step South c)) (snd (room_step South c)) (Gc, Fc) = (Gd, Fd)"
    by (cases "PrimAddToFrontier (fst (room_step South c)) (snd (room_step South c)) (Gc, Fc)")
  have "PrimExpandFrontierFrom (fst c) (snd c) (G, F) = (Gd, Fd)"
    unfolding PrimExpandFrontierFrom_def using a b c3 d4 by (simp add: room_step_def)
  then have gd: "G' = Gd" "F' = Fd" using res by simp_all
  have ma: "prim_mid Size rt Ga Fa c {West}"
    using PrimAddToFrontier_mid1 [OF sz m0 _ a] by simp
  have mb: "prim_mid Size rt Gb Fb c {East, West}"
    using PrimAddToFrontier_mid1 [OF sz ma _ b] by simp
  have mc: "prim_mid Size rt Gc Fc c {North, East, West}"
    using PrimAddToFrontier_mid1 [OF sz mb _ c3] by simp
  have md: "prim_mid Size rt Gd Fd c {South, North, East, West}"
    using PrimAddToFrontier_mid1 [OF sz mc _ d4] by simp
  have all: "\<And>e. e \<noteq> NoDirection \<Longrightarrow> e \<in> {South, North, East, West}"
    by (case_tac e) simp_all
  have md1: "tree_inv Size rt Gd (maze_rooms Size Gd)"
    "frontier_ok Size Gd (maze_rooms Size Gd) Fd"
    and md2: "\<forall>p\<in>maze_rooms Size Gd. \<forall>Dir. p \<noteq> c \<and> Dir \<noteq> NoDirection \<and>
        room_in Size (room_step Dir p) \<longrightarrow> room_step Dir p \<notin> zeros Size Gd"
    and md3: "\<forall>Dir\<in>{South, North, East, West}. room_in Size (room_step Dir c) \<longrightarrow>
        room_step Dir c \<notin> zeros Size Gd"
    using md unfolding prim_mid_def by blast+
  have cle: "\<forall>p\<in>maze_rooms Size Gd. \<forall>Dir. Dir \<noteq> NoDirection \<and>
        room_in Size (room_step Dir p) \<longrightarrow> room_step Dir p \<notin> zeros Size Gd"
  proof (intro ballI allI impI)
    fix p Dir assume p: "p \<in> maze_rooms Size Gd"
      and e: "Dir \<noteq> NoDirection \<and> room_in Size (room_step Dir p)"
    show "room_step Dir p \<notin> zeros Size Gd"
    proof (cases "p = c")
      case True
      then show ?thesis using md3 all [of Dir] e by blast
    next
      case False
      then show ?thesis using md2 p e by blast
    qed
  qed
  have inv: "prim_inv Size rt Gd Fd"
    unfolding prim_inv_def using md1 cle by blast
  have "maze_rooms Size Gd = maze_rooms Size ?G1"
    using PrimAddToFrontier_mid2 [OF sz m0 _ a] PrimAddToFrontier_mid2 [OF sz ma _ b]
      PrimAddToFrontier_mid2 [OF sz mb _ c3] PrimAddToFrontier_mid2 [OF sz mc _ d4] by simp
  then show ?thesis using inv gd T1 by simp
qed


lemma carved_in_maze:
  assumes "rect_grid Size Grid" "room_in Size p" "room_in Size (room_step Dir p)"
    "Dir \<noteq> NoDirection" "room_in Size r"
  shows "in_maze (carved Grid p Dir) r \<longleftrightarrow> in_maze Grid r"
proof -
  have "direction_bits Dir AND 128 = 0" "direction_bits (GetOppositeDirection Dir) AND 128 = 0"
    by (cases Dir; simp)+
  then show ?thesis
    unfolding in_maze_def carved_cell [OF assms] by (auto simp add: or_and_zero)
qed

lemma in_maze_nonzero: "room_in Size p \<Longrightarrow> in_maze Grid p \<Longrightarrow> p \<notin> zeros Size Grid"
  by (auto simp add: in_maze_def zeros_def)

lemma prim_loop_unfold:
  assumes "F \<noteq> []"
    and "RandRange 0 (int (length F) - 1) R = (Index, R1)"
    and "PrimGetInNeighbors (fst (F ! nat Index)) (snd (F ! nat Index)) G \<noteq> []"
    and "RandRange 0 (int (length (PrimGetInNeighbors (fst (F ! nat Index)) (snd (F ! nat Index)) G)) - 1) R1
           = (k, R2)"
    and "GetDirectionBetween (F ! nat Index)
           (PrimGetInNeighbors (fst (F ! nat Index)) (snd (F ! nat Index)) G ! nat k) = Dir"
    and "PrimGetInNeighbors (fst (F ! nat Index)) (snd (F ! nat Index)) G ! nat k
           = room_step Dir (F ! nat Index)"
    and "PrimExpandFrontierFrom (fst (F ! nat Index)) (snd (F ! nat Index))
           (carved G (F ! nat Index) Dir, RemoveAt F Index) = (G2, F2)"
  shows "prim_loop G F R = prim_loop G2 F2 R2"
  using assms
  by (subst prim_loop.simps) (simp add: Let_def carved_def)

lemma prim_loop_step:
  assumes sz: "1 \<le> fst Size" "1 \<le> snd Size"
    and inv: "prim_inv Size rt G F" and ne: "F \<noteq> []"
  shows "\<exists>G2 F2 R2. prim_loop G F R = prim_loop G2 F2 R2 \<and> prim_inv Size rt G2 F2 \<and>
           maze_rooms Size G \<subset> maze_rooms Size G2"
proof -
  let ?T = "maze_rooms Size G"
  have t: "tree_inv Size rt G ?T" and f: "frontier_ok Size G ?T F"
    and cl: "\<forall>p\<in>?T. \<forall>e. e \<noteq> NoDirection \<and> room_in Size (room_step e p) \<longrightarrow>
               room_step e p \<notin> zeros Size G"
    using inv unfolding prim_inv_def by blast+
  have r: "rect_grid Size G" using t unfolding tree_inv_def by blast
  have num: "NumX G = fst Size" "NumY G = snd Size" using rect_grid_Num [OF r sz] by simp_all
  obtain Index R1 where ix: "RandRange 0 (int (length F) - 1) R = (Index, R1)"
    by (cases "RandRange 0 (int (length F) - 1) R")
  have "0 \<le> int (length F) - 1" using ne by (cases F) simp_all
  from RandRange_bounds [OF this, of R] ix
  have ib: "0 \<le> Index" "Index < int (length F)" by simp_all
  let ?c = "F ! nat Index"
  have cF: "?c \<in> set F" using ib by simp
  then have cin: "room_in Size ?c" and cz: "?c \<notin> zeros Size G" and cT: "?c \<notin> ?T"
    using f unfolding frontier_ok_def by blast+
  obtain e0 where e0: "e0 \<noteq> NoDirection" "room_step e0 ?c \<in> ?T"
    using f cF unfolding frontier_ok_def by blast
  let ?N = "PrimGetInNeighbors (fst ?c) (snd ?c) G"
  have Nmem: "\<And>q. q \<in> set ?N \<longleftrightarrow>
           (\<exists>Dir. Dir \<noteq> NoDirection \<and> q = room_step Dir ?c \<and> room_in Size q \<and> in_maze G q)"
    by (rule PrimGetInNeighbors_iff [OF num cin])
  have "room_step e0 ?c \<in> set ?N"
    unfolding Nmem using e0 by (auto simp add: maze_rooms_def)
  then have Nne: "?N \<noteq> []" by auto
  obtain k R2 where kx: "RandRange 0 (int (length ?N) - 1) R1 = (k, R2)"
    by (cases "RandRange 0 (int (length ?N) - 1) R1")
  have "0 \<le> int (length ?N) - 1" using Nne by (cases ?N) simp_all
  from RandRange_bounds [OF this, of R1] kx
  have kb: "0 \<le> k" "k < int (length ?N)" by simp_all
  let ?nb = "?N ! nat k"
  have "?nb \<in> set ?N" using kb by simp
  then obtain Dir where d: "Dir \<noteq> NoDirection" "?nb = room_step Dir ?c" "room_in Size ?nb"
    "in_maze G ?nb"
    unfolding Nmem by blast
  have gd: "GetDirectionBetween ?c ?nb = Dir"
    unfolding d(2) by (rule GetDirectionBetween_step [OF d(1)])
  let ?G1 = "carved G ?c Dir" and ?F1 = "RemoveAt F Index"
  obtain G2 F2 where ex: "PrimExpandFrontierFrom (fst ?c) (snd ?c) (?G1, ?F1) = (G2, F2)"
    by (cases "PrimExpandFrontierFrom (fst ?c) (snd ?c) (?G1, ?F1)")
  have loop: "prim_loop G F R = prim_loop G2 F2 R2"
    by (rule prim_loop_unfold [OF ne ix Nne kx gd d(2) ex])
  have qin: "room_in Size (room_step Dir ?c)" using d(2,3) by simp
  have nbT: "room_step Dir ?c \<in> ?T" using d by (simp add: maze_rooms_def)
  have r1: "rect_grid Size ?G1" by (rule rect_grid_carved [OF r])
  have T1: "maze_rooms Size ?G1 = ?T"
    unfolding maze_rooms_def using carved_in_maze [OF r cin qin d(1)] by blast
  have z1: "zeros Size ?G1 = zeros Size G"
    using zeros_carved [OF r cin qin d(1)] cz in_maze_nonzero [OF qin] d(2,4) by auto
  have od: "GetOppositeDirection Dir \<noteq> NoDirection" using d(1) by (simp add: opposite_NoDirection)
  have bk: "room_step (GetOppositeDirection Dir) (room_step Dir ?c) = ?c"
    by (rule room_step_opposite)
  have h1: "\<forall>x e. room_in Size x \<and> e \<noteq> NoDirection \<longrightarrow>
               (has_dir ?G1 x e \<longleftrightarrow>
                  has_dir G x e \<or> (x = room_step Dir ?c \<and> e = GetOppositeDirection Dir) \<or>
                  (x = room_step (GetOppositeDirection Dir) (room_step Dir ?c) \<and>
                   e = GetOppositeDirection (GetOppositeDirection Dir)))"
    unfolding bk opposite_opposite
    using carved_has_dir [OF r cin qin d(1)] by blast
  have t1: "tree_inv Size rt ?G1 (insert ?c ?T)"
    using tree_inv_carve [OF t nbT _ _ od r1 h1] cT cin unfolding bk by blast
  have f1: "frontier_ok Size ?G1 (insert ?c ?T) ?F1"
  proof -
    have d1: "distinct F" and s1: "set F = {p. room_in Size p \<and> p \<notin> zeros Size G \<and> p \<notin> ?T}"
      and n1: "\<forall>p\<in>set F. \<exists>Dir. Dir \<noteq> NoDirection \<and> room_step Dir p \<in> ?T"
      using f unfolding frontier_ok_def by blast+
    have rm: "set ?F1 = set F - {?c}" "distinct ?F1"
      using set_RemoveAt [OF d1 ib] by simp_all
    have "set ?F1 = {p. room_in Size p \<and> p \<notin> zeros Size ?G1 \<and> p \<notin> insert ?c ?T}"
      unfolding rm z1 s1 by blast
    moreover have "\<forall>p\<in>set ?F1. \<exists>Dir. Dir \<noteq> NoDirection \<and> room_step Dir p \<in> insert ?c ?T"
      using n1 rm(1) by blast
    ultimately show ?thesis unfolding frontier_ok_def using rm(2) by blast
  qed
  have cl1: "\<forall>p\<in>maze_rooms Size ?G1. \<forall>e. e \<noteq> NoDirection \<and> room_in Size (room_step e p) \<longrightarrow>
               room_step e p \<notin> zeros Size ?G1"
    unfolding T1 z1 using cl .
  have "prim_inv Size rt G2 F2 \<and> maze_rooms Size G2 = insert ?c (maze_rooms Size ?G1)"
    by (rule PrimExpandFrontierFrom_inv [OF sz _ _ _ cl1 ex]) (simp_all add: T1 t1 cT f1)
  then have "prim_inv Size rt G2 F2" "?T \<subset> maze_rooms Size G2"
    using cT unfolding T1 by auto
  then show ?thesis using loop by blast
qed

lemma prim_loop_correct:
  assumes sz: "1 \<le> fst Size" "1 \<le> snd Size"
  shows "prim_inv Size rt G F \<Longrightarrow>
           \<exists>G' R'. prim_loop G F R = Some (G', R') \<and> prim_inv Size rt G' []"
proof (induction "card ({p. room_in Size p} - maze_rooms Size G)" arbitrary: G F R
         rule: less_induct)
  case less
  show ?case
  proof (cases "F = []")
    case True
    have "prim_loop G [] R = Some (G, R)" by (subst prim_loop.simps) simp
    then show ?thesis using less.prems True by blast
  next
    case False
    from prim_loop_step [OF sz less.prems False, of R] obtain G2 F2 R2 where
      st: "prim_loop G F R = prim_loop G2 F2 R2" "prim_inv Size rt G2 F2"
        "maze_rooms Size G \<subset> maze_rooms Size G2"
      by blast
    have "maze_rooms Size G2 \<subseteq> {p. room_in Size p}" by (auto simp add: maze_rooms_def)
    then have "{p. room_in Size p} - maze_rooms Size G2 \<subset> {p. room_in Size p} - maze_rooms Size G"
      using st(3) by blast
    then have "card ({p. room_in Size p} - maze_rooms Size G2)
                 < card ({p. room_in Size p} - maze_rooms Size G)"
      by (intro psubset_card_mono) (simp_all add: finite_rooms)
    from less.hyps [OF this st(2), of R2] show ?thesis using st(1) by simp
  qed
qed

lemma GeneratePrims_spanning:
  assumes sz: "1 \<le> fst Size" "1 \<le> snd Size"
  shows "\<exists>G R'. GeneratePrims Size R = Some (G, R') \<and> spanning_tree Size G"
proof -
  let ?G0 = "CreateZeroedGrid Size"
  obtain StartX R1 where sx: "RandRange 0 (fst Size - 1) R = (StartX, R1)"
    by (cases "RandRange 0 (fst Size - 1) R")
  obtain StartY R2 where sy: "RandRange 0 (snd Size - 1) R1 = (StartY, R2)"
    by (cases "RandRange 0 (snd Size - 1) R1")
  have "0 \<le> fst Size - 1" "0 \<le> snd Size - 1" using sz by simp_all
  from RandRange_bounds [OF this(1), of R] RandRange_bounds [OF this(2), of R1] sx sy
  have cin: "room_in Size (StartX, StartY)" by (simp add: room_in_def)
  let ?c = "(StartX, StartY)"
  obtain G1 F1 where ex: "PrimExpandFrontierFrom (fst ?c) (snd ?c) (?G0, []) = (G1, F1)"
    by (cases "PrimExpandFrontierFrom (fst ?c) (snd ?c) (?G0, [])")
  have gen: "GeneratePrims Size R = prim_loop G1 F1 R2"
    using sx sy ex by (simp add: GeneratePrims_def Let_def)
  have z0: "zeros Size ?G0 = {p. room_in Size p}"
    unfolding zeros_def using cell_at_CreateZeroedGrid by blast
  have T0: "maze_rooms Size ?G0 = {}"
    unfolding maze_rooms_def in_maze_def using cell_at_CreateZeroedGrid by auto
  have t0: "tree_inv Size ?c ?G0 (insert ?c (maze_rooms Size ?G0))"
    unfolding T0
    by (rule tree_inv_initial [OF cin rect_grid_CreateZeroedGrid]) (rule has_dir_CreateZeroedGrid)
  have f0: "frontier_ok Size ?G0 (insert ?c (maze_rooms Size ?G0)) []"
    unfolding frontier_ok_def z0 by simp
  have "prim_inv Size ?c G1 F1 \<and> maze_rooms Size G1 = insert ?c (maze_rooms Size ?G0)"
    by (rule PrimExpandFrontierFrom_inv [OF sz t0 _ f0 _ ex]) (simp_all add: T0)
  then have "prim_inv Size ?c G1 F1" by simp
  from prim_loop_correct [OF sz this, of R2] obtain G R' where
    res: "prim_loop G1 F1 R2 = Some (G, R')" "prim_inv Size ?c G []"
    by blast
  let ?T = "maze_rooms Size G"
  have t: "tree_inv Size ?c G ?T" and f: "frontier_ok Size G ?T []"
    and cl: "\<forall>p\<in>?T. \<forall>e. e \<noteq> NoDirection \<and> room_in Size (room_step e p) \<longrightarrow>
               room_step e p \<notin> zeros Size G"
    using res(2) unfolding prim_inv_def by blast+
  have nz: "\<And>p. room_in Size p \<Longrightarrow> p \<notin> zeros Size G \<Longrightarrow> p \<in> ?T"
    using f unfolding frontier_ok_def by auto
  have cl': "\<forall>p\<in>?T. \<forall>Dir. Dir \<noteq> NoDirection \<and> room_in Size (room_step Dir p) \<longrightarrow>
               room_step Dir p \<in> ?T"
    using cl nz by blast
  have "?c \<in> ?T" using t unfolding tree_inv_def by blast
  then have "\<And>p. room_in Size p \<Longrightarrow> p \<in> ?T"
    using rooms_closed_all [OF _ cin cl'] by blast
  then have "?T = {p. room_in Size p}" by (auto simp add: maze_rooms_def)
  then show ?thesis using gen res(1) t unfolding spanning_tree_def by auto
qed

subsection \<open>Kruskal's algorithm\<close>

text \<open>
  \<open>root_of Parent s r\<close>: following the parent pointers from \<open>s\<close> ends in \<open>r\<close>. The
  invariant of the loop over the edges: every room has a root; direction bits come in
  symmetric pairs inside the grid; two rooms have the same root exactly when passages
  join them; and the number of passages plus the number of roots is the number of rooms.
\<close>

inductive root_of :: "KruskalSets \<Rightarrow> FIntPoint \<Rightarrow> FIntPoint \<Rightarrow> bool" for Parent where
  rt: "Parent s = None \<Longrightarrow> root_of Parent s s"
| step: "Parent s = Some p \<Longrightarrow> root_of Parent p r \<Longrightarrow> root_of Parent s r"

lemma root_of_GetRoot: "root_of Parent s r \<Longrightarrow> GetRoot Parent s = Some r"
  by (induction rule: root_of.induct) (subst GetRoot.simps, simp)+

lemma root_of_is_root: "root_of Parent s r \<Longrightarrow> Parent r = None"
  by (induction rule: root_of.induct) simp_all

lemma root_of_functional: "root_of Parent s r \<Longrightarrow> root_of Parent s r' \<Longrightarrow> r = r'"
  by (metis root_of_GetRoot option.inject)

lemma root_of_update_other:
  "root_of Parent s r \<Longrightarrow> r \<noteq> \<rho> \<Longrightarrow> Parent \<rho> = None \<Longrightarrow> root_of (Parent(\<rho> \<mapsto> c)) s r"
proof (induction rule: root_of.induct)
  case (rt s)
  then show ?case by (simp add: root_of.rt)
next
  case (step s p r)
  then have "s \<noteq> \<rho>" by auto
  then have a: "(Parent(\<rho> \<mapsto> c)) s = Some p" using step.hyps(1) by simp
  have b: "root_of (Parent(\<rho> \<mapsto> c)) p r" using step.IH [OF step.prems] .
  show ?case by (rule root_of.step [OF a b])
qed

lemma root_of_update_merged:
  "root_of Parent s \<rho> \<Longrightarrow> root_of Parent c r \<Longrightarrow> r \<noteq> \<rho> \<Longrightarrow> root_of (Parent(\<rho> \<mapsto> c)) s r"
proof (induction s \<rho> rule: root_of.induct)
  case (rt s)
  have b: "root_of (Parent(s \<mapsto> c)) c r"
    using root_of_update_other [OF rt.prems(1) rt.prems(2) rt.hyps] .
  have a: "(Parent(s \<mapsto> c)) s = Some c" by simp
  show ?case by (rule root_of.step [OF a b])
next
  case (step s p \<rho>)
  have "Parent \<rho> = None" using step.hyps(2) by (rule root_of_is_root)
  then have "s \<noteq> \<rho>" using step.hyps(1) by auto
  then have a: "(Parent(\<rho> \<mapsto> c)) s = Some p" using step.hyps(1) by simp
  have b: "root_of (Parent(\<rho> \<mapsto> c)) p r" using step.IH [OF step.prems] .
  show ?case by (rule root_of.step [OF a b])
qed

definition kruskal_inv :: "FIntPoint \<Rightarrow> DirectionsGrid \<Rightarrow> KruskalSets \<Rightarrow> bool" where
  "kruskal_inv Size Grid Parent \<longleftrightarrow>
     rect_grid Size Grid \<and>
     (\<forall>p. room_in Size p \<longrightarrow> (\<exists>r. room_in Size r \<and> root_of Parent p r)) \<and>
     (\<forall>p Dir. room_in Size p \<and> Dir \<noteq> NoDirection \<and> has_dir Grid p Dir \<longrightarrow>
        room_in Size (room_step Dir p) \<and>
        has_dir Grid (room_step Dir p) (GetOppositeDirection Dir)) \<and>
     (\<forall>p q r. room_in Size p \<and> room_in Size q \<and> root_of Parent p r \<and> root_of Parent q r \<longrightarrow>
        (p, q) \<in> (linked Size Grid)\<^sup>*) \<and>
     (\<forall>p q. (p, q) \<in> linked Size Grid \<longrightarrow> (\<exists>r. root_of Parent p r \<and> root_of Parent q r)) \<and>
     card (passage_set Size Grid) + card {p. room_in Size p \<and> Parent p = None}
       = card {p. room_in Size p}"

lemma passage_set_carve:
  assumes cl: "\<And>r e. room_in Size r \<Longrightarrow> e \<noteq> NoDirection \<Longrightarrow> has_dir Grid r e \<Longrightarrow>
                 has_dir Grid (room_step e r) (GetOppositeDirection e)"
    and pin: "room_in Size p" and qin: "room_in Size (room_step Dir p)"
    and d: "Dir \<noteq> NoDirection"
    and np: "\<not> has_dir Grid p Dir"
    and nq: "\<not> has_dir Grid (room_step Dir p) (GetOppositeDirection Dir)"
    and h': "\<forall>r e. room_in Size r \<and> e \<noteq> NoDirection \<longrightarrow>
               (has_dir Grid' r e \<longleftrightarrow>
                  has_dir Grid r e \<or> (r = p \<and> e = Dir) \<or>
                  (r = room_step Dir p \<and> e = GetOppositeDirection Dir))"
  shows "card (passage_set Size Grid') = card (passage_set Size Grid) + 1"
proof -
  let ?q = "room_step Dir p" and ?o = "GetOppositeDirection Dir"
  have od: "?o \<noteq> NoDirection" using d by (simp add: opposite_NoDirection)
  have hp: "has_dir Grid' p Dir" using h' pin d by blast
  have hq: "has_dir Grid' ?q ?o" using h' qin od by blast
  have mono: "\<And>r e. room_in Size r \<Longrightarrow> e \<noteq> NoDirection \<Longrightarrow> has_dir Grid r e \<Longrightarrow> has_dir Grid' r e"
    using h' by blast
  define x where "x = (if Dir = East \<or> Dir = South then (p, Dir) else (?q, ?o))"
  have ps: "passage_set Size Grid' = insert x (passage_set Size Grid)"
  proof (intro set_eqI iffI)
    fix y assume y: "y \<in> passage_set Size Grid'"
    obtain r e where re: "y = (r, e)" by (cases y)
    have e: "e = East \<or> e = South" "room_in Size r" "room_in Size (room_step e r)"
      "has_dir Grid' r e" "has_dir Grid' (room_step e r) (GetOppositeDirection e)"
      using y re by (simp_all add: passage_set_iff)
    have en: "e \<noteq> NoDirection" using e(1) by auto
    consider (old) "has_dir Grid r e" | (p) "r = p" "e = Dir" | (q) "r = ?q" "e = ?o"
      using h' e(2,4) en by blast
    then show "y \<in> insert x (passage_set Size Grid)"
    proof cases
      case old
      then have "has_dir Grid (room_step e r) (GetOppositeDirection e)"
        using cl [OF e(2) en] by blast
      then show ?thesis using old e re by (simp add: passage_set_iff)
    next
      case p
      then show ?thesis using e(1) re by (simp add: x_def)
    next
      case q
      then have "\<not> (Dir = East \<or> Dir = South)" using e(1) opposite_East_South [OF d] by auto
      then show ?thesis using q re by (simp add: x_def)
    qed
  next
    fix y assume "y \<in> insert x (passage_set Size Grid)"
    then consider (x) "y = x" | (old) "y \<in> passage_set Size Grid" by blast
    then show "y \<in> passage_set Size Grid'"
    proof cases
      case x
      show ?thesis
      proof (cases "Dir = East \<or> Dir = South")
        case True
        then show ?thesis using x pin qin hp hq by (simp add: x_def passage_set_iff)
      next
        case False
        then have "?o = East \<or> ?o = South" using opposite_East_South [OF d] by auto
        then show ?thesis
          using x False pin qin hp hq
          by (simp add: x_def passage_set_iff room_step_opposite opposite_opposite)
      qed
    next
      case old
      then show ?thesis
        using passage_set_mono [of Size Grid Grid', OF mono] by blast
    qed
  qed
  have xn: "x \<notin> passage_set Size Grid"
    using np nq by (simp add: x_def passage_set_iff)
  show ?thesis unfolding ps using xn finite_passage_set by simp
qed

lemma linked_sym: "(p, q) \<in> linked Size Grid \<Longrightarrow> (q, p) \<in> linked Size Grid"
proof -
  assume "(p, q) \<in> linked Size Grid"
  then obtain D where D: "room_in Size p" "room_in Size q" "D \<noteq> NoDirection"
    "q = room_step D p" "has_dir Grid p D" "has_dir Grid q (GetOppositeDirection D)"
    unfolding linked_iff by blast
  have "GetOppositeDirection D \<noteq> NoDirection" using D(3) by (simp add: opposite_NoDirection)
  moreover have "p = room_step (GetOppositeDirection D) q"
    unfolding D(4) by (simp add: room_step_opposite)
  moreover have "has_dir Grid p (GetOppositeDirection (GetOppositeDirection D))"
    using D(5) by (simp add: opposite_opposite)
  ultimately show ?thesis unfolding linked_iff using D by blast
qed

lemma linked_rtrancl_sym:
  "(p, q) \<in> (linked Size Grid)\<^sup>* \<Longrightarrow> (q, p) \<in> (linked Size Grid)\<^sup>*"
proof (induction rule: rtrancl_induct)
  case base
  then show ?case by simp
next
  case (step y z)
  have "(z, y) \<in> linked Size Grid" using step.hyps(2) by (rule linked_sym)
  then show ?case using step.IH by (rule converse_rtrancl_into_rtrancl)
qed


lemma kruskal_union:
  assumes inv: "kruskal_inv Size G P"
    and pin: "room_in Size p" and qin: "room_in Size (room_step Dir p)"
    and d: "Dir \<noteq> NoDirection"
    and rp: "root_of P p rp" and rq: "root_of P (room_step Dir p) rq" and ne: "rp \<noteq> rq"
  shows "kruskal_inv Size (carved G p Dir) (P(rq \<mapsto> p)) \<and>
         (p, room_step Dir p) \<in> linked Size (carved G p Dir) \<and>
         linked Size G \<subseteq> linked Size (carved G p Dir)"
proof -
  let ?q = "room_step Dir p" and ?o = "GetOppositeDirection Dir"
  let ?G1 = "carved G p Dir" and ?P1 = "P(rq \<mapsto> p)"
  have r: "rect_grid Size G"
    and roots: "\<And>s. room_in Size s \<Longrightarrow> \<exists>t. room_in Size t \<and> root_of P s t"
    and cl: "\<And>s e. room_in Size s \<Longrightarrow> e \<noteq> NoDirection \<Longrightarrow> has_dir G s e \<Longrightarrow>
               room_in Size (room_step e s) \<and> has_dir G (room_step e s) (GetOppositeDirection e)"
    and conn: "\<And>a b t. room_in Size a \<Longrightarrow> room_in Size b \<Longrightarrow> root_of P a t \<Longrightarrow>
               root_of P b t \<Longrightarrow> (a, b) \<in> (linked Size G)\<^sup>*"
    and same: "\<And>a b. (a, b) \<in> linked Size G \<Longrightarrow> \<exists>t. root_of P a t \<and> root_of P b t"
    and cnt: "card (passage_set Size G) + card {s. room_in Size s \<and> P s = None}
                = card {s. room_in Size s}"
    using inv unfolding kruskal_inv_def by blast+
  have od: "?o \<noteq> NoDirection" using d by (simp add: opposite_NoDirection)
  have rq0: "P rq = None" using rq by (rule root_of_is_root)
  have rqin: "room_in Size rq" using roots [OF qin] root_of_functional [OF rq] by blast
  have rpin: "room_in Size rp" using roots [OF pin] root_of_functional [OF rp] by blast
  have nl: "(p, ?q) \<notin> linked Size G"
  proof
    assume "(p, ?q) \<in> linked Size G"
    then obtain t where "root_of P p t" "root_of P ?q t" using same by blast
    then show False using root_of_functional [OF rp] root_of_functional [OF rq] ne by blast
  qed
  have np: "\<not> has_dir G p Dir"
  proof
    assume h: "has_dir G p Dir"
    then have "has_dir G ?q ?o" using cl [OF pin d] by blast
    then have "(p, ?q) \<in> linked Size G" unfolding linked_iff using pin qin d h by blast
    then show False using nl by simp
  qed
  have nq: "\<not> has_dir G ?q ?o"
  proof
    assume h: "has_dir G ?q ?o"
    then have "has_dir G (room_step ?o ?q) (GetOppositeDirection ?o)" using cl [OF qin od] by blast
    then show False using np by (simp add: room_step_opposite opposite_opposite)
  qed
  have h': "\<forall>s e. room_in Size s \<and> e \<noteq> NoDirection \<longrightarrow>
               (has_dir ?G1 s e \<longleftrightarrow>
                  has_dir G s e \<or> (s = p \<and> e = Dir) \<or> (s = ?q \<and> e = ?o))"
    using carved_has_dir [OF r pin qin d] by blast
  have mono: "\<And>s e. room_in Size s \<Longrightarrow> e \<noteq> NoDirection \<Longrightarrow> has_dir G s e \<Longrightarrow> has_dir ?G1 s e"
    using h' by blast
  have lm: "linked Size G \<subseteq> linked Size ?G1" by (rule linked_mono) (rule mono)
  have hp: "has_dir ?G1 p Dir" using h' pin d by blast
  have hq: "has_dir ?G1 ?q ?o" using h' qin od by blast
  have lpq: "(p, ?q) \<in> linked Size ?G1" unfolding linked_iff using pin qin d hp hq by blast
  have lqp: "(?q, p) \<in> linked Size ?G1" using lpq by (rule linked_sym)
  have newroot: "\<And>s t. root_of P s t \<Longrightarrow> root_of ?P1 s (if t = rq then rp else t)"
  proof -
    fix s t assume st: "root_of P s t"
    show "root_of ?P1 s (if t = rq then rp else t)"
    proof (cases "t = rq")
      case True
      then show ?thesis using root_of_update_merged [OF _ rp ne] st by simp
    next
      case False
      then show ?thesis using root_of_update_other [OF st False rq0] by simp
    qed
  qed
  have c1: "rect_grid Size ?G1" by (rule rect_grid_carved [OF r])
  have c2: "\<forall>s. room_in Size s \<longrightarrow> (\<exists>t. room_in Size t \<and> root_of ?P1 s t)"
  proof (intro allI impI)
    fix s assume "room_in Size s"
    then obtain t where t: "room_in Size t" "root_of P s t" using roots by blast
    have "room_in Size (if t = rq then rp else t)" using t(1) rpin by simp
    then show "\<exists>t. room_in Size t \<and> root_of ?P1 s t" using newroot [OF t(2)] by blast
  qed
  have c3: "\<forall>s e. room_in Size s \<and> e \<noteq> NoDirection \<and> has_dir ?G1 s e \<longrightarrow>
              room_in Size (room_step e s) \<and>
              has_dir ?G1 (room_step e s) (GetOppositeDirection e)"
  proof (intro allI impI)
    fix s e assume a: "room_in Size s \<and> e \<noteq> NoDirection \<and> has_dir ?G1 s e"
    then consider (old) "has_dir G s e" | (p) "s = p" "e = Dir" | (q) "s = ?q" "e = ?o"
      using h' by blast
    then show "room_in Size (room_step e s) \<and>
               has_dir ?G1 (room_step e s) (GetOppositeDirection e)"
    proof cases
      case old
      from cl [OF _ _ old] a have 1: "room_in Size (room_step e s)"
        "has_dir G (room_step e s) (GetOppositeDirection e)" by blast+
      have "has_dir ?G1 (room_step e s) (GetOppositeDirection e)"
        using mono [OF 1(1) _ 1(2)] a by (simp add: opposite_NoDirection)
      then show ?thesis using 1 by simp
    next
      case p
      then show ?thesis using qin hq by simp
    next
      case q
      then show ?thesis using pin hp by (simp add: room_step_opposite opposite_opposite)
    qed
  qed
  have c4: "\<forall>a b t. room_in Size a \<and> room_in Size b \<and> root_of ?P1 a t \<and> root_of ?P1 b t \<longrightarrow>
        (a, b) \<in> (linked Size ?G1)\<^sup>*"
  proof (intro allI impI)
    fix a b t
    assume h: "room_in Size a \<and> room_in Size b \<and> root_of ?P1 a t \<and> root_of ?P1 b t"
    obtain ta where ta: "root_of P a ta" using roots h by blast
    obtain tb where tb: "root_of P b tb" using roots h by blast
    have fa: "t = (if ta = rq then rp else ta)"
      using root_of_functional [OF newroot [OF ta]] h by blast
    have fb: "t = (if tb = rq then rp else tb)"
      using root_of_functional [OF newroot [OF tb]] h by blast
    have old: "\<And>x y u. room_in Size x \<Longrightarrow> room_in Size y \<Longrightarrow> root_of P x u \<Longrightarrow> root_of P y u
                 \<Longrightarrow> (x, y) \<in> (linked Size ?G1)\<^sup>*"
      using conn rtrancl_mono [OF lm] by blast
    consider (eq) "ta = tb" | (ab) "ta = rq" "tb = rp" | (ba) "ta = rp" "tb = rq"
      using fa fb by (auto split: if_splits)
    then show "(a, b) \<in> (linked Size ?G1)\<^sup>*"
    proof cases
      case eq
      then show ?thesis using old ta tb h by blast
    next
      case ab
      have "(a, ?q) \<in> (linked Size ?G1)\<^sup>*" using old [OF _ qin _ rq] ta ab h by blast
      moreover have "(p, b) \<in> (linked Size ?G1)\<^sup>*" using old [OF pin _ rp] tb ab h by blast
      ultimately show ?thesis using lqp by (meson rtrancl.rtrancl_into_rtrancl rtrancl_trans)
    next
      case ba
      have "(a, p) \<in> (linked Size ?G1)\<^sup>*" using old [OF _ pin _ rp] ta ba h by blast
      moreover have "(?q, b) \<in> (linked Size ?G1)\<^sup>*" using old [OF qin _ rq] tb ba h by blast
      ultimately show ?thesis using lpq by (meson rtrancl.rtrancl_into_rtrancl rtrancl_trans)
    qed
  qed
  have c5: "\<forall>a b. (a, b) \<in> linked Size ?G1 \<longrightarrow> (\<exists>t. root_of ?P1 a t \<and> root_of ?P1 b t)"
  proof (intro allI impI)
    fix a b assume "(a, b) \<in> linked Size ?G1"
    then obtain D where D: "room_in Size a" "room_in Size b" "D \<noteq> NoDirection"
      "b = room_step D a" "has_dir ?G1 a D" "has_dir ?G1 b (GetOppositeDirection D)"
      unfolding linked_iff by blast
    consider (old) "has_dir G a D" | (p) "a = p" "D = Dir" | (q) "a = ?q" "D = ?o"
      using h' D(1,3,5) by blast
    then show "\<exists>t. root_of ?P1 a t \<and> root_of ?P1 b t"
    proof cases
      case old
      then have "has_dir G b (GetOppositeDirection D)" using cl [OF D(1,3)] D(4) by blast
      then have "(a, b) \<in> linked Size G" unfolding linked_iff using D old by blast
      then obtain t where "root_of P a t" "root_of P b t" using same by blast
      then show ?thesis using newroot by blast
    next
      case p
      then have "b = ?q" using D(4) by simp
      then show ?thesis using newroot [OF rp] newroot [OF rq] ne p by auto
    next
      case q
      then have "b = p" using D(4) by (simp add: room_step_opposite)
      then show ?thesis using newroot [OF rp] newroot [OF rq] ne q by auto
    qed
  qed
  have c6: "card (passage_set Size ?G1) + card {s. room_in Size s \<and> ?P1 s = None}
              = card {s. room_in Size s}"
  proof -
    have 1: "card (passage_set Size ?G1) = card (passage_set Size G) + 1"
      by (rule passage_set_carve [OF _ pin qin d np nq h']) (use cl in blast)
    have e: "{s. room_in Size s \<and> ?P1 s = None} = {s. room_in Size s \<and> P s = None} - {rq}"
      by auto
    have m: "rq \<in> {s. room_in Size s \<and> P s = None}" using rqin rq0 by simp
    have fin: "finite {s. room_in Size s \<and> P s = None}"
      by (rule finite_subset [OF _ finite_rooms [of Size]]) blast
    have "Suc (card ({s. room_in Size s \<and> P s = None} - {rq}))
            = card {s. room_in Size s \<and> P s = None}"
      by (rule card_Suc_Diff1 [OF fin m])
    then have 2: "card {s. room_in Size s \<and> ?P1 s = None} + 1
                          = card {s. room_in Size s \<and> P s = None}"
      unfolding e by simp
    show ?thesis using 1 2 cnt by linarith
  qed
  have "kruskal_inv Size ?G1 ?P1"
    unfolding kruskal_inv_def using c1 c2 c3 c4 c5 c6 by blast
  then show ?thesis using lpq lm by blast
qed


definition edge_ok :: "FIntPoint \<Rightarrow> FKruskalEdge \<Rightarrow> bool" where
  "edge_ok Size E \<longleftrightarrow>
     room_in Size (fst E, fst (snd E)) \<and> snd (snd E) \<noteq> NoDirection \<and>
     room_in Size (room_step (snd (snd E)) (fst E, fst (snd E)))"

definition edge_joined :: "FIntPoint \<Rightarrow> DirectionsGrid \<Rightarrow> FKruskalEdge \<Rightarrow> bool" where
  "edge_joined Size Grid E \<longleftrightarrow>
     ((fst E, fst (snd E)), room_step (snd (snd E)) (fst E, fst (snd E))) \<in> (linked Size Grid)\<^sup>*"

lemma process_edges_Cons:
  assumes "root_of P (X, Y) rp" "root_of P (room_step Dir (X, Y)) rq"
  shows "process_edges ((X, Y, Dir) # rest) G P =
           (if rp = rq then process_edges rest G P
            else process_edges rest (carved G (X, Y) Dir) (P(rq \<mapsto> (X, Y))))"
proof -
  have g: "GetRoot P (X, Y) = Some rp"
    "GetRoot P (X + GetDirectionDeltaX Dir, Y + GetDirectionDeltaY Dir) = Some rq"
    using root_of_GetRoot [OF assms(1)] root_of_GetRoot [OF assms(2)]
    by (simp_all add: room_step_def)
  show ?thesis
    using g by (simp add: IsConnectedTo_def ConnectTo_def carved_def room_step_def Let_def)
qed

lemma process_edges_correct:
  "kruskal_inv Size G P \<Longrightarrow> \<forall>E\<in>set edges. edge_ok Size E \<Longrightarrow>
     \<exists>G' P'. process_edges edges G P = Some G' \<and> kruskal_inv Size G' P' \<and>
        linked Size G \<subseteq> linked Size G' \<and> (\<forall>E\<in>set edges. edge_joined Size G' E)"
proof (induction edges arbitrary: G P)
  case Nil
  then show ?case by auto
next
  case (Cons E rest)
  obtain X Y Dir where E: "E = (X, Y, Dir)" by (cases E)
  let ?p = "(X, Y)" and ?q = "room_step Dir (X, Y)"
  have ok: "room_in Size ?p" "Dir \<noteq> NoDirection" "room_in Size ?q"
    using Cons.prems(2) E by (simp_all add: edge_ok_def)
  have rest: "\<forall>E\<in>set rest. edge_ok Size E" using Cons.prems(2) by simp
  obtain rp where rp: "root_of P ?p rp"
    using Cons.prems(1) ok(1) unfolding kruskal_inv_def by blast
  obtain rq where rq: "root_of P ?q rq"
    using Cons.prems(1) ok(3) unfolding kruskal_inv_def by blast
  note unf = process_edges_Cons [OF rp rq, of rest G]
  show ?case
  proof (cases "rp = rq")
    case True
    from Cons.IH [OF Cons.prems(1) rest] obtain G' P' where
      res: "process_edges rest G P = Some G'" "kruskal_inv Size G' P'"
        "linked Size G \<subseteq> linked Size G'" "\<forall>E\<in>set rest. edge_joined Size G' E"
      by blast
    have "(?p, ?q) \<in> (linked Size G)\<^sup>*"
      using Cons.prems(1) ok rp rq True unfolding kruskal_inv_def by blast
    then have "(?p, ?q) \<in> (linked Size G')\<^sup>*" using rtrancl_mono [OF res(3)] by blast
    then have "edge_joined Size G' E" by (simp add: edge_joined_def E)
    then have all: "\<forall>E\<in>set (E # rest). edge_joined Size G' E" using res(4) by simp
    have fin: "process_edges (E # rest) G P = Some G'" using unf True res(1) E by simp
    show ?thesis
      using fin res(2,3) all by (intro exI [of _ G'] exI [of _ P'] conjI)
  next
    case False
    let ?G1 = "carved G ?p Dir" and ?P1 = "P(rq \<mapsto> ?p)"
    from kruskal_union [OF Cons.prems(1) ok(1,3,2) rp rq False]
    have u: "kruskal_inv Size ?G1 ?P1" "(?p, ?q) \<in> linked Size ?G1"
      "linked Size G \<subseteq> linked Size ?G1" by blast+
    from Cons.IH [OF u(1) rest] obtain G' P' where
      res: "process_edges rest ?G1 ?P1 = Some G'" "kruskal_inv Size G' P'"
        "linked Size ?G1 \<subseteq> linked Size G'" "\<forall>E\<in>set rest. edge_joined Size G' E"
      by blast
    have "(?p, ?q) \<in> (linked Size G')\<^sup>*" using u(2) res(3) by blast
    then have "edge_joined Size G' E" by (simp add: edge_joined_def E)
    then have all: "\<forall>E\<in>set (E # rest). edge_joined Size G' E" using res(4) by simp
    have fin: "process_edges (E # rest) G P = Some G'" using unf False res(1) E by simp
    have sub: "linked Size G \<subseteq> linked Size G'" using u(3) res(3) by blast
    show ?thesis
      using fin res(2) sub all by (intro exI [of _ G'] exI [of _ P'] conjI)
  qed
qed

lemma kruskal_edges_iff:
  "(X, Y, Dir) \<in> set (kruskal_edges Size) \<longleftrightarrow>
     room_in Size (X, Y) \<and> (Dir = West \<and> X > 0 \<or> Dir = North \<and> Y > 0)"
  unfolding kruskal_edges_def by (auto simp add: room_in_def split: if_splits)

lemma kruskal_inv_initial:
  "kruskal_inv Size (CreateZeroedGrid Size) Map.empty"
proof -
  let ?G0 = "CreateZeroedGrid Size"
  have h: "\<And>p e. room_in Size p \<Longrightarrow> \<not> has_dir ?G0 p e" by (rule has_dir_CreateZeroedGrid)
  have l: "linked Size ?G0 = {}"
    using h by (auto simp add: linked_def)
  have ps: "passage_set Size ?G0 = {}"
    using h by (auto simp add: passage_set_def)
  have rt: "\<And>p. root_of Map.empty p p" by (rule root_of.rt) simp
  have fn: "\<And>p t. root_of Map.empty p t \<Longrightarrow> t = p"
    using root_of_functional [OF rt] by blast
  have c2: "\<forall>p. room_in Size p \<longrightarrow> (\<exists>r. room_in Size r \<and> root_of Map.empty p r)"
    using rt by blast
  have c3: "\<forall>p Dir. room_in Size p \<and> Dir \<noteq> NoDirection \<and> has_dir ?G0 p Dir \<longrightarrow>
        room_in Size (room_step Dir p) \<and>
        has_dir ?G0 (room_step Dir p) (GetOppositeDirection Dir)"
    using h by blast
  have c4: "\<forall>p q r. room_in Size p \<and> room_in Size q \<and> root_of Map.empty p r \<and>
              root_of Map.empty q r \<longrightarrow> (p, q) \<in> ({} :: (FIntPoint \<times> FIntPoint) set)\<^sup>*"
  proof (intro allI impI)
    fix p q r :: FIntPoint
    assume a: "room_in Size p \<and> room_in Size q \<and> root_of Map.empty p r \<and> root_of Map.empty q r"
    then have "r = p" "r = q" using fn by blast+
    then show "(p, q) \<in> ({} :: (FIntPoint \<times> FIntPoint) set)\<^sup>*" by simp
  qed
  have c6: "card ({} :: (FIntPoint \<times> EMazeDirection) set) +
              card {p. room_in Size p \<and> (Map.empty :: KruskalSets) p = None}
            = card {p. room_in Size p}"
    by simp
  show ?thesis
    unfolding kruskal_inv_def l ps
    using rect_grid_CreateZeroedGrid [of Size] c2 c3 c4 c6 by blast
qed

lemma GenerateKruskals_spanning:
  assumes sz: "1 \<le> fst Size" "1 \<le> snd Size"
  shows "\<exists>G R'. GenerateKruskals Size R = Some (G, R') \<and> spanning_tree Size G"
proof -
  obtain edges R' where sh: "ShuffleArray (kruskal_edges Size) R = (edges, R')"
    by (cases "ShuffleArray (kruskal_edges Size) R")
  have se: "set edges = set (kruskal_edges Size)"
    using ShuffleArray_set [of "kruskal_edges Size" R] sh by simp
  have ok: "\<forall>E\<in>set edges. edge_ok Size E"
  proof
    fix E assume "E \<in> set edges"
    then have m: "(fst E, fst (snd E), snd (snd E)) \<in> set (kruskal_edges Size)"
      using se by simp
    then show "edge_ok Size E"
      unfolding kruskal_edges_iff edge_ok_def
      by (auto simp add: room_in_def room_step_def)
  qed
  from process_edges_correct [OF kruskal_inv_initial ok] obtain G P where
    res: "process_edges edges (CreateZeroedGrid Size) Map.empty = Some G" "kruskal_inv Size G P"
      "\<forall>E\<in>set edges. edge_joined Size G E"
    by blast
  have gen: "GenerateKruskals Size R = Some (G, R')"
    using sh res(1) by (simp add: GenerateKruskals_def)
  have r0: "room_in Size (0, 0)" using sz by (simp add: room_in_def)
  have r: "rect_grid Size G"
    and roots: "\<And>s. room_in Size s \<Longrightarrow> \<exists>t. room_in Size t \<and> root_of P s t"
    and cl: "\<And>s e. room_in Size s \<Longrightarrow> e \<noteq> NoDirection \<Longrightarrow> has_dir G s e \<Longrightarrow>
               room_in Size (room_step e s) \<and> has_dir G (room_step e s) (GetOppositeDirection e)"
    and same: "\<And>a b. (a, b) \<in> linked Size G \<Longrightarrow> \<exists>t. root_of P a t \<and> root_of P b t"
    and cnt: "card (passage_set Size G) + card {s. room_in Size s \<and> P s = None}
                = card {s. room_in Size s}"
    using res(2) unfolding kruskal_inv_def by blast+
  have wn: "\<And>p Dir. room_in Size p \<Longrightarrow> room_in Size (room_step Dir p) \<Longrightarrow>
              Dir = West \<or> Dir = North \<Longrightarrow> (p, room_step Dir p) \<in> (linked Size G)\<^sup>*"
  proof -
    fix p Dir
    assume a: "room_in Size p" "room_in Size (room_step Dir p)" "Dir = West \<or> Dir = North"
    have "(fst p, snd p, Dir) \<in> set (kruskal_edges Size)"
      unfolding kruskal_edges_iff using a by (auto simp add: room_in_def room_step_def)
    then have "edge_joined Size G (fst p, snd p, Dir)" using res(3) se by blast
    then show "(p, room_step Dir p) \<in> (linked Size G)\<^sup>*" by (simp add: edge_joined_def)
  qed
  have nb: "\<And>p Dir. room_in Size p \<Longrightarrow> room_in Size (room_step Dir p) \<Longrightarrow>
              Dir \<noteq> NoDirection \<Longrightarrow> (p, room_step Dir p) \<in> (linked Size G)\<^sup>*"
  proof -
    fix p Dir
    assume a: "room_in Size p" "room_in Size (room_step Dir p)" "Dir \<noteq> NoDirection"
    show "(p, room_step Dir p) \<in> (linked Size G)\<^sup>*"
    proof (cases "Dir = West \<or> Dir = North")
      case True
      then show ?thesis using wn a by blast
    next
      case False
      then have "GetOppositeDirection Dir = West \<or> GetOppositeDirection Dir = North"
        using a(3) by (cases Dir) simp_all
      from wn [OF a(2) _ this] a(1)
      have "(room_step Dir p, p) \<in> (linked Size G)\<^sup>*" by (simp add: room_step_opposite)
      then show ?thesis by (rule linked_rtrancl_sym)
    qed
  qed
  let ?S = "{p. room_in Size p \<and> ((0, 0), p) \<in> (linked Size G)\<^sup>*}"
  have "(0, 0) \<in> ?S" using r0 by simp
  moreover have "\<forall>p\<in>?S. \<forall>Dir. Dir \<noteq> NoDirection \<and> room_in Size (room_step Dir p) \<longrightarrow>
                   room_step Dir p \<in> ?S"
    using nb by (auto intro: rtrancl_trans)
  ultimately have all: "\<And>p. room_in Size p \<Longrightarrow> p \<in> ?S"
    using rooms_closed_all [OF _ r0] by blast
  have c5: "\<forall>p\<in>{p. room_in Size p}. ((0, 0), p) \<in> (linked Size G)\<^sup>*" using all by blast
  have sr: "\<And>a b. (a, b) \<in> (linked Size G)\<^sup>* \<Longrightarrow> root_of P a t \<Longrightarrow> root_of P b t" for t
  proof -
    fix a b assume "(a, b) \<in> (linked Size G)\<^sup>*" "root_of P a t"
    then show "root_of P b t"
    proof (induction rule: rtrancl_induct)
      case base
      then show ?case by simp
    next
      case (step y z)
      then obtain u where "root_of P y u" "root_of P z u" using same by blast
      then show ?case using step root_of_functional by blast
    qed
  qed
  obtain \<rho> where rho: "room_in Size \<rho>" "root_of P (0, 0) \<rho>" using roots [OF r0] by blast
  have allroot: "\<And>p. room_in Size p \<Longrightarrow> root_of P p \<rho>"
    using sr [OF _ rho(2)] all by blast
  have "{s. room_in Size s \<and> P s = None} = {\<rho>}"
  proof (intro set_eqI iffI)
    fix s assume "s \<in> {s. room_in Size s \<and> P s = None}"
    then have "room_in Size s" "root_of P s s" by (simp_all add: root_of.rt)
    then show "s \<in> {\<rho>}" using allroot root_of_functional by blast
  next
    fix s assume "s \<in> {\<rho>}"
    then show "s \<in> {s. room_in Size s \<and> P s = None}"
      using rho root_of_is_root by auto
  qed
  then have c6: "card (passage_set Size G) + 1 = card {p. room_in Size p}"
    using cnt by simp
  have c4: "\<forall>p Dir. room_in Size p \<and> Dir \<noteq> NoDirection \<and> has_dir G p Dir \<longrightarrow>
        p \<in> {p. room_in Size p} \<and> room_step Dir p \<in> {p. room_in Size p} \<and>
        has_dir G (room_step Dir p) (GetOppositeDirection Dir)"
    using cl by blast
  have "tree_inv Size (0, 0) G {p. room_in Size p}"
    unfolding tree_inv_def using r r0 c4 c5 c6 by blast
  then show ?thesis using gen unfolding spanning_tree_def by blast
qed

subsection \<open>Number of passages\<close>

lemma open_passages_count:
  "length (open_passages Grid) = card (passage_set (NumX Grid, NumY Grid) Grid)"
proof -
  have d: "distinct (open_passages Grid)"
    unfolding open_passages_def
    by (intro distinct_filter) (simp add: distinct_product)
  have "set (open_passages Grid) = passage_set (NumX Grid, NumY Grid) Grid"
    unfolding open_passages_def passage_set_def open_passage_def
    by (auto simp add: room_in_def)
  then show ?thesis using distinct_card [OF d] by simp
qed

lemma spanning_tree_count:
  assumes sz: "1 \<le> fst Size" "1 \<le> snd Size" and sp: "spanning_tree Size Grid"
  shows "NumX Grid = fst Size \<and> NumY Grid = snd Size \<and>
         room_count Grid = nat (fst Size * snd Size) \<and>
         length (open_passages Grid) = room_count Grid - 1"
proof -
  obtain rt where t: "tree_inv Size rt Grid {p. room_in Size p}"
    using sp unfolding spanning_tree_def by blast
  then have r: "rect_grid Size Grid"
    and c: "card (passage_set Size Grid) + 1 = card {p. room_in Size p}"
    unfolding tree_inv_def by blast+
  have num: "NumX Grid = fst Size" "NumY Grid = snd Size"
    using rect_grid_Num [OF r sz] by simp_all
  have "card {p. room_in Size p} = nat (fst Size * snd Size)"
    using card_rooms [of Size] sz by simp
  then show ?thesis
    using c num by (simp add: open_passages_count room_count_def)
qed

text \<open>
  Claim C5. For every positive size of the directions grid and every random stream, each
  of the three algorithms returns a directions grid with as many rooms as the size says
  and with exactly \<open>room_count - 1\<close> open passages.
\<close>

theorem generated_directions_grid_passages:
  assumes "1 \<le> fst Size" "1 \<le> snd Size"
  shows "(\<exists>G R'. GenerateBacktracker Size Random = Some (G, R') \<and>
            room_count G = nat (fst Size * snd Size) \<and>
            length (open_passages G) = room_count G - 1) \<and>
         (\<exists>G R'. GeneratePrims Size Random = Some (G, R') \<and>
            room_count G = nat (fst Size * snd Size) \<and>
            length (open_passages G) = room_count G - 1) \<and>
         (\<exists>G R'. GenerateKruskals Size Random = Some (G, R') \<and>
            room_count G = nat (fst Size * snd Size) \<and>
            length (open_passages G) = room_count G - 1)"
  using GenerateBacktracker_spanning [OF assms, of Random]
    GeneratePrims_spanning [OF assms, of Random]
    GenerateKruskals_spanning [OF assms, of Random]
    spanning_tree_count [OF assms]
  by blast

declare carve_directions.simps [code] prim_loop.simps [code] GetRoot.simps [code]

lemma GenerateBacktracker_2x2:
  "map_option fst (GenerateBacktracker (2, 2) (\<lambda>n. n)) = Some [[1, 12], [1, 10]]"
  by code_simp

lemma GeneratePrims_2x2:
  "map_option fst (GeneratePrims (2, 2) (\<lambda>n. n)) = Some [[196, 196], [131, 202]]"
  by code_simp

lemma GenerateKruskals_2x2:
  "map_option fst (GenerateKruskals (2, 2) (\<lambda>n. n)) = Some [[5, 8], [3, 8]]"
  by code_simp

theorem generated_directions_grid_passages_witness:
  "(1::int) \<le> fst (2::int, 2::int) \<and> (1::int) \<le> snd (2::int, 2::int) \<and>
   map_option fst (GenerateBacktracker (2, 2) (\<lambda>n. n)) = Some [[1, 12], [1, 10]] \<and>
   room_count [[1, 12], [1, 10]] = 4 \<and> length (open_passages [[1, 12], [1, 10]]) = 3 \<and>
   map_option fst (GeneratePrims (2, 2) (\<lambda>n. n)) = Some [[196, 196], [131, 202]] \<and>
   length (open_passages [[196, 196], [131, 202]]) = 3 \<and>
   map_option fst (GenerateKruskals (2, 2) (\<lambda>n. n)) = Some [[5, 8], [3, 8]] \<and>
   length (open_passages [[5, 8], [3, 8]]) = 3"
proof -
  have s: "(1::int) \<le> fst (2::int, 2::int)" "(1::int) \<le> snd (2::int, 2::int)" by simp_all
  from generated_directions_grid_passages [OF s, of "\<lambda>n. n"]
  obtain G1 R1 G2 R2 G3 R3 where
    a: "GenerateBacktracker (2, 2) (\<lambda>n. n) = Some (G1, R1)" "room_count G1 = 4"
       "length (open_passages G1) = room_count G1 - 1"
    and b: "GeneratePrims (2, 2) (\<lambda>n. n) = Some (G2, R2)" "room_count G2 = 4"
       "length (open_passages G2) = room_count G2 - 1"
    and c: "GenerateKruskals (2, 2) (\<lambda>n. n) = Some (G3, R3)" "room_count G3 = 4"
       "length (open_passages G3) = room_count G3 - 1"
    by auto
  have "G1 = [[1, 12], [1, 10]]" using a(1) GenerateBacktracker_2x2 by simp
  moreover have "G2 = [[196, 196], [131, 202]]" using b(1) GeneratePrims_2x2 by simp
  moreover have "G3 = [[5, 8], [3, 8]]" using c(1) GenerateKruskals_2x2 by simp
  ultimately show ?thesis
    using a b c s GenerateBacktracker_2x2 GeneratePrims_2x2 GenerateKruskals_2x2 by simp
qed

section \<open>The floor grid of a generated maze is connected\<close>

subsection \<open>The cells written by \<open>DirectionsToFloorWallGrid\<close>\<close>

text \<open>
  \<open>room_cells\<close> lists the cells that the body of the conversion loop sets to floor for one
  room, in the order of the source; \<open>paint\<close> sets a list of cells to floor. The conversion
  is \<open>paint\<close> on the zeroed grid with the cells of all rooms.
\<close>

definition paint :: "DirectionsGrid \<Rightarrow> FIntPoint list \<Rightarrow> DirectionsGrid" where
  "paint Grid cs = foldl (\<lambda>G c. set_cell G (fst c) (snd c) 1) Grid cs"

definition room_cells :: "DirectionsGrid \<Rightarrow> FIntPoint \<Rightarrow> int \<Rightarrow> int \<Rightarrow> FIntPoint list" where
  "room_cells DirGrid FinalSize X Y =
     (if X * 2 \<ge> fst FinalSize \<or> Y * 2 \<ge> snd FinalSize then []
      else [(X * 2, Y * 2)] @
        (if cell_at DirGrid X Y AND 1 \<noteq> 0 \<and> X * 2 + 1 < fst FinalSize
         then [(X * 2 + 1, Y * 2)] else []) @
        (if cell_at DirGrid X Y AND 2 \<noteq> 0 \<and> Y * 2 - 1 \<ge> 0
         then [(X * 2, Y * 2 - 1)] else []) @
        (if cell_at DirGrid X Y AND 4 \<noteq> 0 \<and> Y * 2 + 1 < snd FinalSize
         then [(X * 2, Y * 2 + 1)] else []) @
        (if cell_at DirGrid X Y AND 8 \<noteq> 0 \<and> X * 2 - 1 \<ge> 0
         then [(X * 2 - 1, Y * 2)] else []))"

lemma paint_append: "paint (paint Grid as) bs = paint Grid (as @ bs)"
  by (simp add: paint_def)

lemma paint_Nil: "paint Grid [] = Grid"
  by (simp add: paint_def)

lemma floor_room_paint:
  "floor_room DirGrid FinalSize Y Grid X = paint Grid (room_cells DirGrid FinalSize X Y)"
  by (simp add: floor_room_def room_cells_def paint_def Let_def)

lemma fold_rooms_paint:
  "foldl (floor_room DirGrid FinalSize Y) Grid xs
     = paint Grid (concat (map (\<lambda>X. room_cells DirGrid FinalSize X Y) xs))"
proof (induction xs arbitrary: Grid)
  case Nil
  show ?case by (simp add: paint_Nil)
next
  case (Cons X xs)
  have "foldl (floor_room DirGrid FinalSize Y) Grid (X # xs)
          = foldl (floor_room DirGrid FinalSize Y) (floor_room DirGrid FinalSize Y Grid X) xs"
    by simp
  also have "\<dots> = paint (paint Grid (room_cells DirGrid FinalSize X Y))
                       (concat (map (\<lambda>X. room_cells DirGrid FinalSize X Y) xs))"
    unfolding Cons floor_room_paint ..
  finally show ?case by (simp add: paint_append)
qed

lemma foldl_paint_concat:
  "foldl (\<lambda>Grid Y. paint Grid (f Y)) Grid ys = paint Grid (concat (map f ys))"
  by (induction ys arbitrary: Grid) (simp_all add: paint_Nil paint_append)

lemma fold_rows_paint:
  "foldl (\<lambda>Grid Y. foldl (floor_room DirGrid FinalSize Y) Grid xs) Grid ys
     = paint Grid (concat (map (\<lambda>Y. concat (map (\<lambda>X. room_cells DirGrid FinalSize X Y) xs)) ys))"
  unfolding fold_rooms_paint by (rule foldl_paint_concat)

lemma rect_grid_paint: "rect_grid Size Grid \<Longrightarrow> rect_grid Size (paint Grid cs)"
  unfolding paint_def
  by (induction cs arbitrary: Grid) (simp_all add: rect_grid_set_cell)

lemma cell_at_paint:
  "rect_grid Size Grid \<Longrightarrow> \<forall>c\<in>set cs. room_in Size c \<Longrightarrow> room_in Size x \<Longrightarrow>
     cell_at (paint Grid cs) (fst x) (snd x) = (if x \<in> set cs then 1 else cell_at Grid (fst x) (snd x))"
proof (induction cs arbitrary: Grid)
  case Nil
  then show ?case by (simp add: paint_Nil)
next
  case (Cons c cs)
  let ?G1 = "set_cell Grid (fst c) (snd c) 1"
  have r1: "rect_grid Size ?G1" using Cons.prems(1) by (rule rect_grid_set_cell)
  have cin: "room_in Size (fst c, snd c)" "room_in Size (fst x, snd x)"
    using Cons.prems(2,3) by simp_all
  have eq: "(fst x = fst c \<and> snd x = snd c) = (x = c)" by (auto simp add: prod_eq_iff)
  have c1: "cell_at ?G1 (fst x) (snd x) = (if x = c then 1 else cell_at Grid (fst x) (snd x))"
    unfolding cell_at_set_cell [OF Cons.prems(1) cin] eq ..
  have "paint Grid (c # cs) = paint ?G1 cs" by (simp add: paint_def)
  then show ?case
    using Cons.IH [OF r1 _ Cons.prems(3)] Cons.prems(2) c1 by auto
qed

lemma room_cells_in:
  "0 \<le> X \<Longrightarrow> 0 \<le> Y \<Longrightarrow> c \<in> set (room_cells DirGrid FinalSize X Y) \<Longrightarrow> room_in FinalSize c"
  by (auto simp add: room_cells_def room_in_def split: if_splits)

definition all_room_cells :: "DirectionsGrid \<Rightarrow> FIntPoint \<Rightarrow> FIntPoint list" where
  "all_room_cells DirGrid FinalSize =
     (let DirSizeY = int (length DirGrid);
          DirSizeX = (if DirSizeY > 0 then int (length (DirGrid ! 0)) else 0)
      in concat (map (\<lambda>Y. concat (map (\<lambda>X. room_cells DirGrid FinalSize X Y) [0..DirSizeX - 1]))
           [0..DirSizeY - 1]))"

lemma DirectionsToFloorWallGrid_paint:
  "DirectionsToFloorWallGrid DirGrid FinalSize =
     paint (CreateZeroedGrid FinalSize) (all_room_cells DirGrid FinalSize)"
  by (simp add: DirectionsToFloorWallGrid_def all_room_cells_def Let_def fold_rows_paint)

lemma all_room_cells_iff:
  assumes "rect_grid Size DirGrid" "1 \<le> fst Size" "1 \<le> snd Size"
  shows "c \<in> set (all_room_cells DirGrid FinalSize) \<longleftrightarrow>
           (\<exists>p. room_in Size p \<and> c \<in> set (room_cells DirGrid FinalSize (fst p) (snd p)))"
proof -
  have n: "NumX DirGrid = fst Size" "NumY DirGrid = snd Size"
    using rect_grid_Num [OF assms] by simp_all
  then have l: "int (length DirGrid) = snd Size" "int (length (DirGrid ! 0)) = fst Size"
    by (simp_all add: NumX_def NumY_def)
  have "c \<in> set (all_room_cells DirGrid FinalSize) \<longleftrightarrow>
          (\<exists>Y\<in>{0..snd Size - 1}. \<exists>X\<in>{0..fst Size - 1}.
             c \<in> set (room_cells DirGrid FinalSize X Y))"
    unfolding all_room_cells_def Let_def l using assms(2,3) by simp
  also have "\<dots> \<longleftrightarrow> (\<exists>p. room_in Size p \<and> c \<in> set (room_cells DirGrid FinalSize (fst p) (snd p)))"
  proof
    assume "\<exists>Y\<in>{0..snd Size - 1}. \<exists>X\<in>{0..fst Size - 1}. c \<in> set (room_cells DirGrid FinalSize X Y)"
    then obtain X Y where "0 \<le> Y" "Y < snd Size" "0 \<le> X" "X < fst Size"
      "c \<in> set (room_cells DirGrid FinalSize X Y)" by auto
    then have "room_in Size (X, Y) \<and> c \<in> set (room_cells DirGrid FinalSize (fst (X, Y)) (snd (X, Y)))"
      by (simp add: room_in_def)
    then show "\<exists>p. room_in Size p \<and> c \<in> set (room_cells DirGrid FinalSize (fst p) (snd p))" ..
  next
    assume "\<exists>p. room_in Size p \<and> c \<in> set (room_cells DirGrid FinalSize (fst p) (snd p))"
    then obtain p where "room_in Size p" "c \<in> set (room_cells DirGrid FinalSize (fst p) (snd p))"
      by blast
    then show "\<exists>Y\<in>{0..snd Size - 1}. \<exists>X\<in>{0..fst Size - 1}. c \<in> set (room_cells DirGrid FinalSize X Y)"
      by (intro bexI [of _ "snd p"] bexI [of _ "fst p"]) (simp_all add: room_in_def)
  qed
  finally show ?thesis .
qed

lemma floor_grid_cell:
  assumes "rect_grid Size DirGrid" "1 \<le> fst Size" "1 \<le> snd Size" "room_in FinalSize x"
  shows "cell_at (DirectionsToFloorWallGrid DirGrid FinalSize) (fst x) (snd x) = 1 \<longleftrightarrow>
           (\<exists>p. room_in Size p \<and> x \<in> set (room_cells DirGrid FinalSize (fst p) (snd p)))"
proof -
  have a: "\<forall>c\<in>set (all_room_cells DirGrid FinalSize). room_in FinalSize c"
  proof
    fix c assume "c \<in> set (all_room_cells DirGrid FinalSize)"
    then obtain p where "room_in Size p" "c \<in> set (room_cells DirGrid FinalSize (fst p) (snd p))"
      unfolding all_room_cells_iff [OF assms(1-3)] by blast
    then show "room_in FinalSize c"
      using room_cells_in [of "fst p" "snd p" c DirGrid FinalSize] by (simp add: room_in_def)
  qed
  have "cell_at (CreateZeroedGrid FinalSize) (fst x) (snd x) = 0"
    using assms(4) by (rule cell_at_CreateZeroedGrid)
  then show ?thesis
    unfolding DirectionsToFloorWallGrid_paint
      cell_at_paint [OF rect_grid_CreateZeroedGrid a assms(4)]
      all_room_cells_iff [OF assms(1-3)]
    by simp
qed

subsection \<open>The cell array in row-major order\<close>

lemma nth_concat_rows:
  "\<forall>r\<in>set rs. length r = n \<Longrightarrow> i < length rs \<Longrightarrow> j < n \<Longrightarrow> concat rs ! (i * n + j) = rs ! i ! j"
proof (induction rs arbitrary: i)
  case Nil
  then show ?case by simp
next
  case (Cons r rs)
  show ?case
  proof (cases i)
    case 0
    then show ?thesis using Cons.prems by (simp add: nth_append)
  next
    case (Suc k)
    have "concat (r # rs) ! (i * n + j) = (r @ concat rs) ! (n + (k * n + j))"
      using Suc by (simp add: add.assoc)
    also have "\<dots> = concat rs ! (k * n + j)"
      using Cons.prems(1) by (simp add: nth_append)
    also have "\<dots> = rs ! k ! j"
      using Cons.prems Suc by (intro Cons.IH) simp_all
    finally show ?thesis using Suc by simp
  qed
qed

lemma length_concat_rows:
  "\<forall>r\<in>set rs. length r = n \<Longrightarrow> length (concat rs) = length rs * n"
  by (induction rs) simp_all

lemma row_major_nth:
  assumes "0 \<le> x" "x < SX" "0 \<le> y" "y < SY"
  shows "concat (map (\<lambda>Y. map (\<lambda>X. f X Y) [0..SX - 1]) [0..SY - 1]) ! nat (y * SX + x) = f x y"
proof -
  let ?rs = "map (\<lambda>Y. map (\<lambda>X. f X Y) [0..SX - 1]) [0..SY - 1]"
  have len: "\<forall>r\<in>set ?rs. length r = nat SX" using assms by auto
  have i: "nat y < length ?rs" using assms by simp
  have j: "nat x < nat SX" using assms by simp
  have idx: "nat (y * SX + x) = nat y * nat SX + nat x"
    using assms by (simp add: nat_add_distrib nat_mult_distrib)
  have "?rs ! nat y = map (\<lambda>X. f X y) [0..SX - 1]" using assms by simp
  moreover have "map (\<lambda>X. f X y) [0..SX - 1] ! nat x = f x y" using assms by simp
  ultimately show ?thesis
    unfolding idx nth_concat_rows [OF len i j] by simp
qed

lemma row_major_length:
  assumes "0 \<le> SX" "0 \<le> SY"
  shows "int (length (concat (map (\<lambda>Y. map (\<lambda>X. f X Y) [0..SX - 1]) [0..SY - 1]))) = SX * SY"
proof -
  let ?rs = "map (\<lambda>Y. map (\<lambda>X. f X Y) [0..SX - 1]) [0..SY - 1]"
  have len: "\<forall>r\<in>set ?rs. length r = nat SX" using assms by auto
  show ?thesis unfolding length_concat_rows [OF len] using assms by (simp add: mult.commute)
qed

lemma IsValidCell_row_major:
  assumes "0 \<le> SX" "0 \<le> SY"
  shows "IsValidCell (Initialize (concat (map (\<lambda>Y. map (\<lambda>X. f X Y) [0..SX - 1]) [0..SY - 1])) (SX, SY) cs) p
           \<longleftrightarrow> room_in (SX, SY) p \<and> bIsFloor (f (fst p) (snd p))"
proof (cases "room_in (SX, SY) p")
  case False
  then show ?thesis by (auto simp add: IsValidCell_def Initialize_def room_in_def)
next
  case True
  then have b: "0 \<le> fst p" "fst p < SX" "0 \<le> snd p" "snd p < SY" by (simp_all add: room_in_def)
  have i0: "0 \<le> snd p * SX + fst p" using b by simp
  have "snd p * SX + fst p < snd p * SX + SX" using b by simp
  also have "\<dots> = (snd p + 1) * SX" by (simp add: algebra_simps)
  also have "\<dots> \<le> SY * SX" using b by (intro mult_right_mono) simp_all
  finally have i1: "snd p * SX + fst p < SX * SY" by (simp add: mult.commute)
  show ?thesis
    using True b i0 i1
    by (simp add: IsValidCell_def Initialize_def GridToIndex_def Let_def
        row_major_length [OF assms] row_major_nth [OF b])
qed

subsection \<open>Rooms, passages and walks\<close>

text \<open>
  \<open>directions_size\<close> is the size of the directions grid that \<open>GenerateMaze\<close> computes
  from the final size; \<open>room_cell\<close> is the final cell of a room.
\<close>

definition room_cell :: "FIntPoint \<Rightarrow> FIntPoint" where
  "room_cell p = (fst p * 2, snd p * 2)"

definition directions_size :: "FIntPoint \<Rightarrow> FIntPoint" where
  "directions_size FinalSize = ((fst FinalSize + 1) sdiv 2, (snd FinalSize + 1) sdiv 2)"

lemma directions_size_eq:
  "1 \<le> fst FinalSize \<Longrightarrow> 1 \<le> snd FinalSize \<Longrightarrow>
     directions_size FinalSize = ((fst FinalSize + 1) div 2, (snd FinalSize + 1) div 2)"
  by (simp add: directions_size_def signed_divide_int_def)

lemma directions_size_pos:
  assumes "1 \<le> fst FinalSize" "1 \<le> snd FinalSize"
  shows "1 \<le> fst (directions_size FinalSize)" "1 \<le> snd (directions_size FinalSize)"
  unfolding directions_size_eq [OF assms] using assms by simp_all

lemma room_cell_bounds:
  assumes "1 \<le> fst FinalSize" "1 \<le> snd FinalSize" "room_in (directions_size FinalSize) p"
  shows "0 \<le> fst p" "fst p * 2 < fst FinalSize" "0 \<le> snd p" "snd p * 2 < snd FinalSize"
  using assms(3) unfolding directions_size_eq [OF assms(1,2)] room_in_def by auto

lemma room_cell_floor:
  assumes "1 \<le> fst FinalSize" "1 \<le> snd FinalSize" "room_in (directions_size FinalSize) p"
  shows "room_cell p \<in> set (room_cells DirGrid FinalSize (fst p) (snd p))"
  using room_cell_bounds [OF assms] by (simp add: room_cells_def room_cell_def)

lemma room_cells_near:
  "c \<in> set (room_cells DirGrid FinalSize (fst p) (snd p)) \<Longrightarrow> c = room_cell p \<or> adjacent c (room_cell p)"
  by (auto simp add: room_cells_def room_cell_def adjacent_def split: if_splits)

lemma passage_cell_floor:
  assumes sz: "1 \<le> fst FinalSize" "1 \<le> snd FinalSize"
    and l: "(p, q) \<in> linked (directions_size FinalSize) DirGrid"
  shows "\<exists>m. m \<in> set (room_cells DirGrid FinalSize (fst p) (snd p)) \<and>
             adjacent (room_cell p) m \<and> adjacent m (room_cell q)"
proof -
  from l obtain Dir where p: "room_in (directions_size FinalSize) p"
    and q: "room_in (directions_size FinalSize) q"
    and d: "Dir \<noteq> NoDirection" "q = room_step Dir p" "has_dir DirGrid p Dir"
    unfolding linked_iff by blast
  note bp = room_cell_bounds [OF sz p]
  note bq = room_cell_bounds [OF sz q]
  let ?m = "(fst p * 2 + GetDirectionDeltaX Dir, snd p * 2 + GetDirectionDeltaY Dir)"
  have "?m \<in> set (room_cells DirGrid FinalSize (fst p) (snd p))"
    using d bp bq by (cases Dir) (simp_all add: room_cells_def has_dir_def room_step_def)
  moreover have "adjacent (room_cell p) ?m"
    using d(1) by (cases Dir) (simp_all add: adjacent_def room_cell_def)
  moreover have "adjacent ?m (room_cell q)"
    using d(1,2) by (cases Dir) (simp_all add: adjacent_def room_cell_def room_step_def)
  ultimately show ?thesis by blast
qed

definition joined :: "('v, 'f) UMazePathfinder \<Rightarrow> FIntPoint \<Rightarrow> FIntPoint \<Rightarrow> bool" where
  "joined pf a b \<longleftrightarrow> (\<exists>w. walk_between pf a b w)"

lemma joined_refl: "IsValidCell pf a \<Longrightarrow> joined pf a a"
  unfolding joined_def walk_between_def by (intro exI [of _ "[a]"]) simp

lemma joined_step: "IsValidCell pf a \<Longrightarrow> IsValidCell pf b \<Longrightarrow> adjacent a b \<Longrightarrow> joined pf a b"
  unfolding joined_def walk_between_def by (intro exI [of _ "[a, b]"]) simp

lemma walk_append:
  "walk pf w1 \<Longrightarrow> walk pf w2 \<Longrightarrow> last w1 = hd w2 \<Longrightarrow> walk pf (w1 @ tl w2)"
proof (induction pf w1 rule: walk.induct)
  case (1 pf)
  then show ?case by simp
next
  case (2 pf p)
  then have "w2 \<noteq> []" by auto
  then have "[p] @ tl w2 = w2" using 2 by (cases w2) simp_all
  then show ?case using 2 by simp
next
  case (3 pf p q rest)
  then show ?case by simp
qed

lemma last_append_tl:
  "w1 \<noteq> [] \<Longrightarrow> w2 \<noteq> [] \<Longrightarrow> last w1 = hd w2 \<Longrightarrow> last (w1 @ tl w2) = last w2"
  by (cases w2) (auto simp add: last_append)

lemma joined_trans:
  assumes "joined pf a b" "joined pf b c"
  shows "joined pf a c"
proof -
  from assms obtain w1 w2 where w1: "walk pf w1" "hd w1 = a" "last w1 = b"
    and w2: "walk pf w2" "hd w2 = b" "last w2 = c"
    unfolding joined_def walk_between_def by blast
  have ne: "w1 \<noteq> []" "w2 \<noteq> []" using w1(1) w2(1) by auto
  have e: "last w1 = hd w2" using w1 w2 by simp
  have "walk pf (w1 @ tl w2)" using w1(1) w2(1) e by (rule walk_append)
  moreover have "hd (w1 @ tl w2) = a" using ne w1(2) by simp
  moreover have "last (w1 @ tl w2) = c" using last_append_tl [OF ne e] w2(3) by simp
  ultimately show ?thesis unfolding joined_def walk_between_def by blast
qed

text \<open>
  Connection of cells in a pathfinder whose walkable cells are exactly the cells written
  for the rooms of a directions grid: room cells along passages, then any two floor cells
  through the root of the spanning tree.
\<close>

lemma rooms_joined:
  assumes sz: "1 \<le> fst FinalSize" "1 \<le> snd FinalSize"
    and v: "\<And>x. IsValidCell pf x \<longleftrightarrow>
              (\<exists>p. room_in (directions_size FinalSize) p \<and>
                   x \<in> set (room_cells DirGrid FinalSize (fst p) (snd p)))"
    and r: "(p, q) \<in> (linked (directions_size FinalSize) DirGrid)\<^sup>*"
    and p: "room_in (directions_size FinalSize) p"
  shows "joined pf (room_cell p) (room_cell q)"
  using r
proof (induction rule: rtrancl_induct)
  case base
  have "IsValidCell pf (room_cell p)" unfolding v using room_cell_floor [OF sz p] p by blast
  then show ?case by (rule joined_refl)
next
  case (step y z)
  have y: "room_in (directions_size FinalSize) y" and z: "room_in (directions_size FinalSize) z"
    using step.hyps(2) unfolding linked_iff by blast+
  obtain m where m: "m \<in> set (room_cells DirGrid FinalSize (fst y) (snd y))"
    "adjacent (room_cell y) m" "adjacent m (room_cell z)"
    using passage_cell_floor [OF sz step.hyps(2)] by blast
  have vy: "IsValidCell pf (room_cell y)" unfolding v using room_cell_floor [OF sz y] y by blast
  have vz: "IsValidCell pf (room_cell z)" unfolding v using room_cell_floor [OF sz z] z by blast
  have vm: "IsValidCell pf m" unfolding v using m(1) y by blast
  have "joined pf (room_cell y) m" using vy vm m(2) by (rule joined_step)
  moreover have "joined pf m (room_cell z)" using vm vz m(3) by (rule joined_step)
  ultimately have "joined pf (room_cell y) (room_cell z)" by (rule joined_trans)
  with step.IH show ?case by (rule joined_trans)
qed

lemma floor_cells_joined:
  assumes sz: "1 \<le> fst FinalSize" "1 \<le> snd FinalSize"
    and v: "\<And>x. IsValidCell pf x \<longleftrightarrow>
              (\<exists>p. room_in (directions_size FinalSize) p \<and>
                   x \<in> set (room_cells DirGrid FinalSize (fst p) (snd p)))"
    and t: "spanning_tree (directions_size FinalSize) DirGrid"
    and a: "IsValidCell pf a" and b: "IsValidCell pf b"
  shows "joined pf a b"
proof -
  let ?DS = "directions_size FinalSize"
  from t obtain rt where ti: "tree_inv ?DS rt DirGrid {p. room_in ?DS p}"
    unfolding spanning_tree_def by blast
  then have rt: "room_in ?DS rt"
    and reach: "\<And>p. room_in ?DS p \<Longrightarrow> (rt, p) \<in> (linked ?DS DirGrid)\<^sup>*"
    unfolding tree_inv_def by simp_all
  from a obtain pa where pa: "room_in ?DS pa" "a \<in> set (room_cells DirGrid FinalSize (fst pa) (snd pa))"
    unfolding v by blast
  from b obtain pb where pb: "room_in ?DS pb" "b \<in> set (room_cells DirGrid FinalSize (fst pb) (snd pb))"
    unfolding v by blast
  have va: "IsValidCell pf (room_cell pa)" unfolding v using room_cell_floor [OF sz pa(1)] pa(1) by blast
  have vb: "IsValidCell pf (room_cell pb)" unfolding v using room_cell_floor [OF sz pb(1)] pb(1) by blast
  have 1: "joined pf a (room_cell pa)"
    using room_cells_near [OF pa(2)] a va joined_refl joined_step by metis
  have 4: "joined pf (room_cell pb) b"
    using room_cells_near [OF pb(2)] b vb joined_refl joined_step adjacent_sym by metis
  have "(pa, rt) \<in> (linked ?DS DirGrid)\<^sup>*" using reach [OF pa(1)] by (rule linked_rtrancl_sym)
  then have 2: "joined pf (room_cell pa) (room_cell rt)"
    using pa(1) by (rule rooms_joined [OF sz v])
  have 3: "joined pf (room_cell rt) (room_cell pb)"
    using reach [OF pb(1)] rt by (rule rooms_joined [OF sz v])
  from 1 2 have "joined pf a (room_cell rt)" by (rule joined_trans)
  then have "joined pf a (room_cell pb)" using 3 by (rule joined_trans)
  then show ?thesis using 4 by (rule joined_trans)
qed

subsection \<open>Connectivity of the generated cell array\<close>

lemma generated_spanning:
  assumes "1 \<le> fst Size" "1 \<le> snd Size"
  shows "\<exists>G R'. (case A of RecursiveBacktracker \<Rightarrow> GenerateBacktracker Size Random
                 | Prims \<Rightarrow> GeneratePrims Size Random
                 | Kruskals \<Rightarrow> GenerateKruskals Size Random) = Some (G, R') \<and>
           spanning_tree Size G"
proof (cases A)
  case RecursiveBacktracker
  then show ?thesis using GenerateBacktracker_spanning [OF assms, of Random] by simp
next
  case Prims
  then show ?thesis using GeneratePrims_spanning [OF assms, of Random] by simp
next
  case Kruskals
  then show ?thesis using GenerateKruskals_spanning [OF assms, of Random] by simp
qed

text \<open>
  Claim C2. For every configuration with positive dimensions, every random stream (so
  every seed) and each of the three algorithms, \<open>GenerateMaze\<close> returns a cell array, and
  any two floor cells of that array are joined by a walk: a list of positions of the
  array read as \<open>Initialize\<close> and \<open>IsValidCell\<close> read it, each a floor cell, consecutive
  ones one cardinal step apart.
\<close>

theorem GenerateMaze_floor_connected:
  assumes "1 \<le> SizeX Config" "1 \<le> SizeY Config"
  shows "\<exists>cells. GenerateMaze RandomStream CellCenter Config = Some cells \<and>
           (\<forall>a\<in>set cells. \<forall>b\<in>set cells. bIsFloor a \<and> bIsFloor b \<longrightarrow>
              (\<exists>w. walk_between (Initialize cells (SizeX Config, SizeY Config) (CellSize Config))
                     (GridPosition a) (GridPosition b) w))"
proof -
  let ?FS = "(SizeX Config, SizeY Config)"
  let ?DS = "directions_size ?FS"
  have sz: "1 \<le> fst ?FS" "1 \<le> snd ?FS" using assms by simp_all
  note ds = directions_size_pos [OF sz]
  obtain D R' where gen:
    "(case Algorithm Config of
        RecursiveBacktracker \<Rightarrow> GenerateBacktracker ?DS (RandomStream (Seed Config))
      | Prims \<Rightarrow> GeneratePrims ?DS (RandomStream (Seed Config))
      | Kruskals \<Rightarrow> GenerateKruskals ?DS (RandomStream (Seed Config))) = Some (D, R')"
    and t: "spanning_tree ?DS D"
    using generated_spanning [OF ds] by blast
  have rect: "rect_grid ?DS D" using t unfolding spanning_tree_def tree_inv_def by blast
  let ?F = "DirectionsToFloorWallGrid D ?FS"
  let ?f = "\<lambda>X Y. \<lparr> GridPosition = (X, Y), WorldPosition = CellCenter (CellSize Config) X Y,
                     bIsFloor = (cell_at ?F X Y = 1), bIsOnPath = False, InstanceIndex = -1 \<rparr>"
  let ?cells = "concat (map (\<lambda>Y. map (\<lambda>X. ?f X Y) [0..SizeX Config - 1]) [0..SizeY Config - 1])"
  let ?pf = "Initialize ?cells ?FS (CellSize Config)"
  have res: "GenerateMaze RandomStream CellCenter Config = Some ?cells"
    using gen unfolding directions_size_def fst_conv snd_conv GenerateMaze_def Let_def by simp
  have nn: "0 \<le> SizeX Config" "0 \<le> SizeY Config" using assms by simp_all
  have valid: "IsValidCell ?pf x \<longleftrightarrow> room_in ?FS x \<and> cell_at ?F (fst x) (snd x) = 1" for x
    using IsValidCell_row_major [OF nn, of ?f "CellSize Config" x] by simp
  have v: "IsValidCell ?pf x \<longleftrightarrow>
             (\<exists>p. room_in ?DS p \<and> x \<in> set (room_cells D ?FS (fst p) (snd p)))" for x
  proof (cases "room_in ?FS x")
    case True
    show ?thesis unfolding valid using True floor_grid_cell [OF rect ds True] by simp
  next
    case False
    have "\<not> (\<exists>p. room_in ?DS p \<and> x \<in> set (room_cells D ?FS (fst p) (snd p)))"
    proof
      assume "\<exists>p. room_in ?DS p \<and> x \<in> set (room_cells D ?FS (fst p) (snd p))"
      then obtain p where "room_in ?DS p" "x \<in> set (room_cells D ?FS (fst p) (snd p))" by blast
      then have "room_in ?FS x"
        using room_cells_in [of "fst p" "snd p" x D ?FS] by (simp add: room_in_def)
      with False show False ..
    qed
    then show ?thesis unfolding valid using False by simp
  qed
  have fl: "IsValidCell ?pf (GridPosition a)" if a: "a \<in> set ?cells" "bIsFloor a" for a
  proof -
    from a(1) obtain X Y where xy: "0 \<le> X" "X < SizeX Config" "0 \<le> Y" "Y < SizeY Config"
      and e: "a = ?f X Y" by auto
    have "room_in ?FS (X, Y)" using xy by (simp add: room_in_def)
    moreover have "cell_at ?F X Y = 1" using a(2) e by simp
    ultimately show ?thesis unfolding valid using e by simp
  qed
  have "\<forall>a\<in>set ?cells. \<forall>b\<in>set ?cells. bIsFloor a \<and> bIsFloor b \<longrightarrow>
          (\<exists>w. walk_between ?pf (GridPosition a) (GridPosition b) w)"
  proof (intro ballI impI)
    fix a b assume "a \<in> set ?cells" "b \<in> set ?cells" "bIsFloor a \<and> bIsFloor b"
    then have "IsValidCell ?pf (GridPosition a)" "IsValidCell ?pf (GridPosition b)"
      using fl by blast+
    then have "joined ?pf (GridPosition a) (GridPosition b)"
      by (rule floor_cells_joined [OF sz v t])
    then show "\<exists>w. walk_between ?pf (GridPosition a) (GridPosition b) w"
      unfolding joined_def .
  qed
  with res show ?thesis by blast
qed

text \<open>A run on a three by three grid, with the recursive backtracker.\<close>

definition small_config :: "unit FMazeGenerationConfig" where
  "small_config =
     \<lparr> Seed = 1, SizeX = 3, SizeY = 3, Algorithm = RecursiveBacktracker,
       CellSize = (), WallHeight = () \<rparr>"

definition small_maze :: "unit FMazeCell list" where
  "small_maze =
     map (\<lambda>(p, f). \<lparr> GridPosition = p, WorldPosition = (), bIsFloor = f, bIsOnPath = False,
                      InstanceIndex = -1 \<rparr>)
       [((0, 0), True), ((1, 0), True), ((2, 0), True),
        ((0, 1), False), ((1, 1), False), ((2, 1), True),
        ((0, 2), True), ((1, 2), True), ((2, 2), True)]"

lemma GenerateMaze_small:
  "GenerateMaze (\<lambda>seed n. n) (\<lambda>_ _ _. ()) small_config = Some small_maze"
  by code_simp

theorem GenerateMaze_floor_connected_witness:
  "1 \<le> SizeX small_config \<and> 1 \<le> SizeY small_config \<and>
   GenerateMaze (\<lambda>seed n. n) (\<lambda>_ _ _. ()) small_config = Some small_maze \<and>
   small_maze ! 0 \<in> set small_maze \<and> small_maze ! 6 \<in> set small_maze \<and>
   bIsFloor (small_maze ! 0) \<and> bIsFloor (small_maze ! 6) \<and>
   GridPosition (small_maze ! 0) = (0, 0) \<and> GridPosition (small_maze ! 6) = (0, 2) \<and>
   (\<exists>w. walk_between (Initialize small_maze (3, 3) ()) (0, 0) (0, 2) w)"
proof -
  have s: "1 \<le> SizeX small_config" "1 \<le> SizeY small_config"
    by (simp_all add: small_config_def)
  have m: "small_maze ! 0 \<in> set small_maze" "small_maze ! 6 \<in> set small_maze"
    "bIsFloor (small_maze ! 0)" "bIsFloor (small_maze ! 6)"
    "GridPosition (small_maze ! 0) = (0, 0)" "GridPosition (small_maze ! 6) = (0, 2)"
    by (simp_all add: small_maze_def)
  from GenerateMaze_floor_connected [OF s, of "\<lambda>seed n. n" "\<lambda>_ _ _. ()"]
  obtain cells where c: "GenerateMaze (\<lambda>seed n. n) (\<lambda>_ _ _. ()) small_config = Some cells"
    and w: "\<forall>a\<in>set cells. \<forall>b\<in>set cells. bIsFloor a \<and> bIsFloor b \<longrightarrow>
              (\<exists>w. walk_between (Initialize cells (SizeX small_config, SizeY small_config)
                                   (CellSize small_config))
                     (GridPosition a) (GridPosition b) w)"
    by blast
  have e: "cells = small_maze" using c GenerateMaze_small by simp
  have "\<exists>w. walk_between (Initialize small_maze (SizeX small_config, SizeY small_config)
                            (CellSize small_config))
              (GridPosition (small_maze ! 0)) (GridPosition (small_maze ! 6)) w"
    using w m(1-4) unfolding e by blast
  then have "\<exists>w. walk_between (Initialize small_maze (3, 3) ()) (0, 0) (0, 2) w"
    unfolding m(5,6) by (simp add: small_config_def)
  then show ?thesis using s m GenerateMaze_small by simp
qed

end
